theory Spec2Isabelle
  imports Complex_Main "HOL-Library.Log_Nat"
begin

section \<open>JavaScript values used by the tools\<close>

text \<open>
  The development follows three TypeScript sources: the console tool
  (\<open>browser_console_messages\<close>: \<open>getConsoleMessageType\<close>, \<open>createConsoleFilter\<close> and the
  tool's \<open>handle\<close>), the network tool (\<open>browser_network_requests\<close>:
  \<open>getNetworkRequestType\<close>, \<open>createNetworkFilter\<close>, \<open>renderRequest\<close> and the tool's
  \<open>handle\<close>) and \<open>src/tools/utils.ts\<close> (\<open>stringArrayTotalLength\<close>,
  \<open>stringArrayTrimToLength\<close>, \<open>stringArrayApplyLimits\<close>, \<open>waitForCompletion\<close>).

  A JavaScript string is a sequence of UTF-16 code units and \<open>.length\<close> counts them.
  The tools only measure, compare and concatenate strings, so a string is modelled as a
  \<^typ>\<open>string\<close> whose elements stand for code units. Everything the host's pattern
  matcher, URL parser and case conversion do is taken as a parameter (record \<open>Host\<close>).

  A thrown exception is a value: every fallible function returns
  \<open>exception + 'a\<close>, with \<open>Inl\<close> for the exception.
\<close>

datatype exception = SyntaxError string
  \<comment> \<open>\<open>new RegExp(pattern, 'iu')\<close> on a malformed pattern; the argument is the pattern\<close>

record Host =
  regExp :: "string \<Rightarrow> (string \<Rightarrow> bool) option"
    \<comment> \<open>\<open>new RegExp(p, 'iu')\<close>: \<open>None\<close> when the constructor throws, else \<open>regex.test\<close>\<close>
  urlHostname :: "string \<Rightarrow> string option"
    \<comment> \<open>\<open>new URL(u).hostname\<close>: \<open>None\<close> when the constructor throws\<close>
  toUpperCase :: "string \<Rightarrow> string"

text \<open>Decimal rendering of an integer inside a template literal.\<close>

fun showNat :: "nat \<Rightarrow> string" where
  "showNat n =
     (if n < 10 then [''0123456789'' ! n]
      else showNat (n div 10) @ [''0123456789'' ! (n mod 10)])"

declare showNat.simps [simp del]

definition showInt :: "int \<Rightarrow> string" where
  "showInt i = (if i < 0 then ''-'' @ showNat (nat (- i)) else showNat (nat i))"

text \<open>\<open>Array.prototype.some\<close> and \<open>Array.prototype.filter\<close> with a callback that may throw:
  elements are visited in order, \<open>some\<close> stops at the first \<open>true\<close>, and the first
  exception ends the whole call.\<close>

fun some :: "('a \<Rightarrow> exception + bool) \<Rightarrow> 'a list \<Rightarrow> exception + bool" where
  "some p [] = Inr False"
| "some p (x # xs) =
     (case p x of
        Inl e \<Rightarrow> Inl e
      | Inr b \<Rightarrow> if b then Inr True else some p xs)"

fun filterE :: "('a \<Rightarrow> exception + bool) \<Rightarrow> 'a list \<Rightarrow> exception + 'a list" where
  "filterE p [] = Inr []"
| "filterE p (x # xs) =
     (case p x of
        Inl e \<Rightarrow> Inl e
      | Inr b \<Rightarrow>
          (case filterE p xs of
             Inl e \<Rightarrow> Inl e
           | Inr ys \<Rightarrow> Inr (if b then x # ys else ys)))"

text \<open>\<open>filter.pattern\<close> is used as a condition: absent and empty patterns are falsy.\<close>

definition truthyString :: "string option \<Rightarrow> string option" where
  "truthyString s = (case s of None \<Rightarrow> None | Some p \<Rightarrow> if p = [] then None else Some p)"

text \<open>The pattern criterion shared by both filters: compile, then test the subject.\<close>

definition patternMatches :: "Host \<Rightarrow> string option \<Rightarrow> string \<Rightarrow> exception + bool" where
  "patternMatches host pat subject =
     (case truthyString pat of
        None \<Rightarrow> Inr True
      | Some p \<Rightarrow>
          (case regExp host p of
             None \<Rightarrow> Inl (SyntaxError p)
           | Some test \<Rightarrow> Inr (test subject)))"

section \<open>Console messages (tool \<open>browser_console_messages\<close>)\<close>

datatype ConsoleMessageType = error | warning | info | verbose

record ConsoleMessage =
  msgType :: string       \<comment> \<open>the raw tag \<open>message.type\<close>\<close>
  msgText :: string       \<comment> \<open>\<open>message.text\<close>\<close>
  msgToString :: string   \<comment> \<open>\<open>message.toString()\<close>\<close>

definition getConsoleMessageType :: "ConsoleMessage \<Rightarrow> ConsoleMessageType" where
  "getConsoleMessageType message =
     (if msgType message = ''error'' then error
      else if msgType message = ''warning'' then warning
      else if msgType message = ''log'' \<or> msgType message = ''info'' then info
      else verbose)"

record ConsoleFilter =
  cTypes :: "ConsoleMessageType list option"
  cPattern :: "string option"

text \<open>The callback given to \<open>filters.some\<close> in \<open>createConsoleFilter\<close>.\<close>

definition consoleClause :: "Host \<Rightarrow> ConsoleMessage \<Rightarrow> ConsoleFilter \<Rightarrow> exception + bool" where
  "consoleClause host message flt =
     (if (case cTypes flt of
            None \<Rightarrow> False
          | Some ts \<Rightarrow> ts \<noteq> [] \<and> getConsoleMessageType message \<notin> set ts)
      then Inr False
      else case patternMatches host (cPattern flt) (msgText message) of
             Inl e \<Rightarrow> Inl e
           | Inr b \<Rightarrow> if \<not> b then Inr False else Inr True)"

definition createConsoleFilter ::
  "Host \<Rightarrow> ConsoleFilter list \<Rightarrow> bool \<Rightarrow> ConsoleMessage \<Rightarrow> exception + bool" where
  "createConsoleFilter host filters isInclude message =
     (if filters = [] then Inr isInclude
      else case some (consoleClause host message) filters of
             Inl e \<Rightarrow> Inl e
           | Inr matchesAnyFilter \<Rightarrow>
               Inr (if isInclude then matchesAnyFilter else \<not> matchesAnyFilter))"


record 'f Params =
  pInclude :: "'f list option"
  pExclude :: "'f list option"
  pFirst :: "int option"
  pLast :: "int option"

text \<open>The two filtering statements of the console tool's \<open>handle\<close>.\<close>

definition consoleFilterMessages ::
  "Host \<Rightarrow> ConsoleFilter Params \<Rightarrow> ConsoleMessage list \<Rightarrow> exception + ConsoleMessage list" where
  "consoleFilterMessages host params messages =
     (case (case pInclude params of
              None \<Rightarrow> Inr messages
            | Some inc \<Rightarrow> filterE (createConsoleFilter host inc True) messages) of
        Inl e \<Rightarrow> Inl e
      | Inr included \<Rightarrow>
          (case pExclude params of
             None \<Rightarrow> Inr included
           | Some exc \<Rightarrow> filterE (createConsoleFilter host exc False) included))"

section \<open>Network requests (tool \<open>browser_network_requests\<close>)\<close>

datatype NetworkRequestType = extension | sameHost | thirdParty

record Request =
  reqUrl :: string      \<comment> \<open>\<open>request.url()\<close>\<close>
  reqMethod :: string   \<comment> \<open>\<open>request.method()\<close>\<close>

record Response =
  resStatus :: int          \<comment> \<open>\<open>response.status()\<close>\<close>
  resStatusText :: string   \<comment> \<open>\<open>response.statusText()\<close>\<close>

type_synonym RequestEntry = "Request \<times> Response option"

definition startsWith :: "string \<Rightarrow> string \<Rightarrow> bool" where
  "startsWith s p = (take (length p) s = p)"

definition getNetworkRequestType :: "Host \<Rightarrow> Request \<Rightarrow> string \<Rightarrow> NetworkRequestType" where
  "getNetworkRequestType host request currentPageUrl =
     (let url = reqUrl request in
      if startsWith url ''chrome-extension://'' \<or> startsWith url ''moz-extension://''
      then extension
      else case urlHostname host url of
             None \<Rightarrow> thirdParty
           | Some requestDomain \<Rightarrow>
               (case urlHostname host currentPageUrl of
                  None \<Rightarrow> thirdParty
                | Some currentDomain \<Rightarrow>
                    if requestDomain = currentDomain then sameHost else thirdParty))"

record NetworkFilter =
  nStatuses :: "(int \<times> int) list option"
  nTypes :: "NetworkRequestType list option"
  nPattern :: "string option"

text \<open>The callback given to \<open>filters.some\<close> in \<open>createNetworkFilter\<close>. The status
  criterion is guarded by \<open>&& response\<close>.\<close>

fun networkClause ::
  "Host \<Rightarrow> string \<Rightarrow> RequestEntry \<Rightarrow> NetworkFilter \<Rightarrow> exception + bool" where
  "networkClause host currentPageUrl (request, response) flt =
     (if (case (nStatuses flt, response) of
            (Some sts, Some res) \<Rightarrow>
              sts \<noteq> [] \<and>
              \<not> list_ex (\<lambda>(mn, mx). resStatus res \<ge> mn \<and> resStatus res \<le> mx) sts
          | _ \<Rightarrow> False)
      then Inr False
      else if (case nTypes flt of
                 None \<Rightarrow> False
               | Some ts \<Rightarrow>
                   ts \<noteq> [] \<and> getNetworkRequestType host request currentPageUrl \<notin> set ts)
      then Inr False
      else (case patternMatches host (nPattern flt) (reqUrl request) of
              Inl e \<Rightarrow> Inl e
            | Inr b \<Rightarrow> if \<not> b then Inr False else Inr True))"

definition createNetworkFilter ::
  "Host \<Rightarrow> NetworkFilter list \<Rightarrow> bool \<Rightarrow> string \<Rightarrow> RequestEntry \<Rightarrow> exception + bool" where
  "createNetworkFilter host filters isInclude currentPageUrl entry =
     (if filters = [] then Inr isInclude
      else case some (networkClause host currentPageUrl entry) filters of
             Inl e \<Rightarrow> Inl e
           | Inr matchesAnyFilter \<Rightarrow>
               Inr (if isInclude then matchesAnyFilter else \<not> matchesAnyFilter))"

definition networkFilterEntries ::
  "Host \<Rightarrow> string \<Rightarrow> NetworkFilter Params \<Rightarrow> RequestEntry list \<Rightarrow> exception + RequestEntry list" where
  "networkFilterEntries host currentPageUrl params requestEntries =
     (case (case pInclude params of
              None \<Rightarrow> Inr requestEntries
            | Some inc \<Rightarrow> filterE (createNetworkFilter host inc True currentPageUrl) requestEntries) of
        Inl e \<Rightarrow> Inl e
      | Inr included \<Rightarrow>
          (case pExclude params of
             None \<Rightarrow> Inr included
           | Some exc \<Rightarrow> filterE (createNetworkFilter host exc False currentPageUrl) included))"

definition renderRequest :: "Host \<Rightarrow> Request \<Rightarrow> Response option \<Rightarrow> string" where
  "renderRequest host request response =
     (let head = ''['' @ toUpperCase host (reqMethod request) @ ''] '' @ reqUrl request in
      case response of
        None \<Rightarrow> head
      | Some res \<Rightarrow>
          head @ '' '' @ ''=> ['' @ showInt (resStatus res) @ ''] '' @ resStatusText res)"


section \<open>Numbers\<close>

text \<open>
  A JavaScript number is an IEEE 754 double. The finite doubles are rationals, so a number
  is \<open>Num q\<close> or \<open>NaN\<close>; \<open>fl\<close> rounds a rational to the nearest double, ties to
  even, with the 53-bit significand of the normal range. String and array lengths, the
  counts and the budget are integers below \<open>2 ^ 53\<close>, which doubles hold exactly, and the
  quotients and products formed from them stay far inside the normal range, so overflow,
  subnormals and infinities are not modelled. \<open>0 / 0\<close> is \<open>NaN\<close>; a non-zero dividend
  over zero cannot arise, because the divisor is a sum that contains the dividend.
\<close>

datatype number = Num rat | NaN

definition ilog2 :: "rat \<Rightarrow> int" where
  \<comment> \<open>for \<open>0 < x\<close>: the exponent \<open>e\<close> with \<open>2 ^ e \<le> x < 2 ^ (e + 1)\<close>\<close>
  "ilog2 x = (if 1 \<le> x then bitlen \<lfloor>x\<rfloor> - 1 else - bitlen (\<lceil>1 / x\<rceil> - 1))"

definition roundTiesToEven :: "rat \<Rightarrow> int" where
  "roundTiesToEven m =
     (let f = \<lfloor>m\<rfloor>; d = m - of_int f
      in if d < 1 / 2 then f
         else if d > 1 / 2 then f + 1
         else if even f then f else f + 1)"

definition fl :: "rat \<Rightarrow> rat" where
  "fl x =
     (if x = 0 then 0
      else let u = 2 powi (ilog2 \<bar>x\<bar> - 52)
           in sgn x * of_int (roundTiesToEven (\<bar>x\<bar> / u)) * u)"

definition jsDivide :: "number \<Rightarrow> number \<Rightarrow> number" where
  "jsDivide x y =
     (case (x, y) of
        (Num a, Num b) \<Rightarrow> if b = 0 then NaN else Num (fl (a / b))
      | _ \<Rightarrow> NaN)"

definition jsTimes :: "number \<Rightarrow> number \<Rightarrow> number" where
  "jsTimes x y = (case (x, y) of (Num a, Num b) \<Rightarrow> Num (fl (a * b)) | _ \<Rightarrow> NaN)"

definition jsMinus :: "number \<Rightarrow> number \<Rightarrow> number" where
  "jsMinus x y = (case (x, y) of (Num a, Num b) \<Rightarrow> Num (fl (a - b)) | _ \<Rightarrow> NaN)"

definition jsFloor :: "number \<Rightarrow> number" where
  "jsFloor x = (case x of Num a \<Rightarrow> Num (of_int \<lfloor>a\<rfloor>) | NaN \<Rightarrow> NaN)"

definition jsGreater :: "number \<Rightarrow> number \<Rightarrow> bool" where
  \<comment> \<open>\<open>x > y\<close>; every comparison with \<open>NaN\<close> is false\<close>
  "jsGreater x y = (case (x, y) of (Num a, Num b) \<Rightarrow> a > b | _ \<Rightarrow> False)"

section \<open>Arrays\<close>

text \<open>\<open>Array.prototype.slice(start, end)\<close>: a negative index counts from the end, and both
  indices are clamped to the array.\<close>

definition relativeIndex :: "int \<Rightarrow> int \<Rightarrow> int" where
  "relativeIndex len i = (if i < 0 then max (len + i) 0 else min i len)"

definition jsSlice :: "'a list \<Rightarrow> int \<Rightarrow> int option \<Rightarrow> 'a list" where
  "jsSlice xs start stop =
     (let len = int (length xs);
          k = relativeIndex len start;
          final = (case stop of None \<Rightarrow> len | Some e \<Rightarrow> relativeIndex len e)
      in take (nat (final - k)) (drop (nat k) xs))"

section \<open>Limiting the lines (\<open>src/tools/utils.ts\<close>)\<close>

definition stringArrayTotalLength :: "string list \<Rightarrow> nat" where
  "stringArrayTotalLength strings = foldl (\<lambda>len str. len + length str) 0 strings"

text \<open>
  The two loops of \<open>stringArrayTrimToLength\<close>, with the loop variables \<open>length\<close>,
  \<open>index\<close> and \<open>i\<close> as arguments; the value is \<open>index\<close> when the loop ends or breaks.
  The loops start at \<open>i = 0\<close> and at \<open>i = strings.length - 1\<close>, so \<open>strings[i]\<close> is
  always an element of the array.
\<close>

function trimForward :: "string list \<Rightarrow> number \<Rightarrow> nat \<Rightarrow> nat \<Rightarrow> nat \<Rightarrow> nat" where
  "trimForward strings maxLength len index i =
     (if i < length strings then
        (let len' = len + length (strings ! i) in
         if jsGreater (Num (of_nat len')) maxLength then index
         else trimForward strings maxLength len' (i + 1) (i + 1))
      else index)"
  by pat_completeness auto
termination
  by (relation "measure (\<lambda>(strings, maxLength, len, index, i). length strings - i)") auto

function trimBackward :: "string list \<Rightarrow> number \<Rightarrow> nat \<Rightarrow> nat \<Rightarrow> int \<Rightarrow> nat" where
  "trimBackward strings maxLength len index i =
     (if i \<ge> 0 then
        (let len' = len + length (strings ! nat i) in
         if jsGreater (Num (of_nat len')) maxLength then index
         else trimBackward strings maxLength len' (nat i) (i - 1))
      else index)"
  by pat_completeness auto
termination
  by (relation "measure (\<lambda>(strings, maxLength, len, index, i). nat (i + 1))") auto

declare trimForward.simps [simp del]
declare trimBackward.simps [simp del]

definition stringArrayTrimToLength :: "string list \<Rightarrow> number \<Rightarrow> bool \<Rightarrow> string list" where
  "stringArrayTrimToLength strings maxLength preferEnd =
     (if preferEnd
      then jsSlice strings
             (int (trimBackward strings maxLength 0 0 (int (length strings) - 1))) None
      else jsSlice strings 0 (Some (int (trimForward strings maxLength 0 0 0))))"

text \<open>
  The budget and the counts are integers: both tools pass the constant 2000 and the counts
  of the query (numbers that are not integers are not modelled). Where the code computes
  with the budget as a number, it is \<open>Num (of_int maxTotalLength)\<close>.
\<close>

record StringArrayApplyLimitsOptions =
  maxTotalLength :: int
  countFirst :: "int option"   \<comment> \<open>\<open>None\<close> for \<open>undefined\<close> and \<open>null\<close>\<close>
  countLast :: "int option"

text \<open>\<open>countFirst\<close> and \<open>countLast\<close> are used as conditions: absent counts and \<open>0\<close> are
  falsy.\<close>

definition truthyNumber :: "int option \<Rightarrow> int option" where
  "truthyNumber c = (case c of None \<Rightarrow> None | Some n \<Rightarrow> if n = 0 then None else Some n)"

definition markerSkipped :: "int \<Rightarrow> string" where
  "markerSkipped n = ''['' @ showInt n @ '' messages skipped]''"

definition markerTrimmed :: "int \<Rightarrow> string" where
  "markerTrimmed n = ''['' @ showInt n @ '' messages trimmed]''"

definition stringArrayApplyLimits ::
  "string list \<Rightarrow> StringArrayApplyLimitsOptions \<Rightarrow> string list" where
  "stringArrayApplyLimits strings options =
     (let budget = Num (of_int (maxTotalLength options)) in
      case (truthyNumber (countFirst options), truthyNumber (countLast options)) of
        (Some cf, Some cl) \<Rightarrow>
          (let firstN = jsSlice strings 0 (Some cf);
               lastN = jsSlice strings (- cl) None;
               lengthFirst = stringArrayTotalLength firstN;
               lengthLast = stringArrayTotalLength lastN;
               totalLength = lengthFirst + lengthLast
           in if jsGreater (Num (of_nat totalLength)) budget then
                (let maxLengthFirst =
                       jsFloor (jsTimes budget
                         (jsDivide (Num (of_nat lengthFirst)) (Num (of_nat totalLength))));
                     maxLengthLast = jsMinus budget maxLengthFirst;
                     trimmedFirst = stringArrayTrimToLength firstN maxLengthFirst False;
                     trimmedLast = stringArrayTrimToLength lastN maxLengthLast True;
                     skippedFirst = int (length firstN) - int (length trimmedFirst);
                     skippedLast = int (length lastN) - int (length trimmedLast);
                     totalSkipped =
                       int (length strings) - cf - cl + skippedFirst + skippedLast
                 in trimmedFirst @ [markerSkipped totalSkipped] @ trimmedLast)
              else firstN @ lastN)
      | (Some cf, None) \<Rightarrow>
          (let result = jsSlice strings 0 (Some cf);
               trimmed = stringArrayTrimToLength result budget False;
               skipped = int (length result) - int (length trimmed)
           in if skipped > 0 then trimmed @ [markerTrimmed skipped] else trimmed)
      | (None, Some cl) \<Rightarrow>
          (let result = jsSlice strings (- cl) None;
               trimmed = stringArrayTrimToLength result budget True;
               skipped = int (length result) - int (length trimmed)
           in if skipped > 0 then markerTrimmed skipped # trimmed else trimmed)
      | (None, None) \<Rightarrow>
          (let trimmed = stringArrayTrimToLength strings budget True;
               skipped = int (length strings) - int (length trimmed)
           in if skipped > 0 then markerTrimmed skipped # trimmed else trimmed))"

section \<open>The two tools\<close>

definition MAX_TOTAL_TEXT_LENGTH :: int where
  "MAX_TOTAL_TEXT_LENGTH = 2000"

text \<open>\<open>handle\<close> of each tool: the value is the exception that leaves the handler, or the
  lines given to \<open>response.addResult\<close>, in order.\<close>

definition consoleHandle ::
  "Host \<Rightarrow> ConsoleFilter Params \<Rightarrow> ConsoleMessage list \<Rightarrow> exception + string list" where
  "consoleHandle host params messages =
     (case consoleFilterMessages host params messages of
        Inl e \<Rightarrow> Inl e
      | Inr msgs \<Rightarrow>
          Inr (stringArrayApplyLimits (map msgToString msgs)
                 \<lparr>maxTotalLength = MAX_TOTAL_TEXT_LENGTH,
                  countFirst = pFirst params, countLast = pLast params\<rparr>))"

definition requestsHandle ::
  "Host \<Rightarrow> string \<Rightarrow> NetworkFilter Params \<Rightarrow> RequestEntry list \<Rightarrow> exception + string list" where
  "requestsHandle host currentPageUrl params requestEntries =
     (case networkFilterEntries host currentPageUrl params requestEntries of
        Inl e \<Rightarrow> Inl e
      | Inr entries \<Rightarrow>
          (let requestStrings = map (\<lambda>(req, res). renderRequest host req res) entries;
               resultStrings =
                 stringArrayApplyLimits requestStrings
                   \<lparr>maxTotalLength = MAX_TOTAL_TEXT_LENGTH,
                    countFirst = pFirst params, countLast = pLast params\<rparr>
           in if resultStrings = []
              then Inr [''No network requests found matching the specified filters'']
              else Inr resultStrings))"

section \<open>Waiting for completion (\<open>waitForCompletion\<close> in \<open>src/tools/utils.ts\<close>)\<close>

text \<open>
  \<open>waitForCompletion\<close> runs on the event loop: between its \<open>await\<close>s the page emits
  events and the timer may elapse, one callback at a time. The state holds the variables of
  the call (\<open>requests\<close>, \<open>frameNavigated\<close>, whether \<open>waitBarrier\<close> is resolved), what
  the call has registered outside (the listeners attached to the page, the pending timer,
  the pending \<open>waitForLoadState('load')\<close>), where the body of the function stands
  (\<open>phase\<close>), and the trace of the calls of \<open>page.off\<close> and \<open>clearTimeout\<close>, each with
  the flag whether it found something to remove, together with the firing of the timer.
  \<open>page.off\<close> of a listener that is not attached and \<open>clearTimeout\<close> of a timer that is
  not pending change nothing. A request is identified by a number.

  An event is what the environment does next; every order of events is allowed. An event
  whose listener is not attached (or whose timer or promise is not pending) runs no code.
  \<open>CallbackResolved\<close> and \<open>CallbackRejected\<close> settle \<open>await callback()\<close>,
  \<open>BarrierContinues\<close> resumes the body after \<open>await waitBarrier\<close> once the barrier is
  resolved, \<open>QuietElapsed\<close> and \<open>QuietRejected\<close> settle
  \<open>await tab.waitForTimeout(1000)\<close>; leaving the \<open>try\<close> block runs \<open>finally\<close>, that is
  \<open>dispose\<close>, in the same step.
\<close>

datatype listener = RequestListener | RequestFinishedListener | FrameNavigateListener

datatype effect =
    Off listener bool
  | ClearTimeout bool
  | TimerFired

datatype ('r, 'e) phase =
    AwaitingCallback
  | AwaitingBarrier 'r
  | AwaitingQuiet 'r
  | Returned 'r
  | Thrown 'e

record ('r, 'e) completion =
  attached :: "listener set"
  timerPending :: bool
  requests :: "nat set"
  frameNavigated :: bool
  barrierResolved :: bool
  loadPending :: bool
  phase :: "('r, 'e) phase"
  trace :: "effect list"

text \<open>\<open>tab.page.off(name, listener)\<close>, \<open>clearTimeout(timeout)\<close>, the resolver
  \<open>waitCallback\<close> of \<open>waitBarrier\<close>, and the function's own \<open>dispose\<close>.\<close>

definition off :: "listener \<Rightarrow> ('r, 'e) completion \<Rightarrow> ('r, 'e) completion" where
  "off l s = s\<lparr>attached := attached s - {l}, trace := trace s @ [Off l (l \<in> attached s)]\<rparr>"

definition clearTimeout :: "('r, 'e) completion \<Rightarrow> ('r, 'e) completion" where
  "clearTimeout s = s\<lparr>timerPending := False, trace := trace s @ [ClearTimeout (timerPending s)]\<rparr>"

definition waitCallback :: "('r, 'e) completion \<Rightarrow> ('r, 'e) completion" where
  "waitCallback s = s\<lparr>barrierResolved := True\<rparr>"

definition dispose :: "('r, 'e) completion \<Rightarrow> ('r, 'e) completion" where
  "dispose s =
     clearTimeout (off FrameNavigateListener (off RequestFinishedListener (off RequestListener s)))"

text \<open>The three listeners and \<open>onTimeout\<close>, as the function declares them. The argument
  of \<open>frameNavigateListener\<close> says whether \<open>frame.parentFrame()\<close> is set.\<close>

definition requestListener :: "nat \<Rightarrow> ('r, 'e) completion \<Rightarrow> ('r, 'e) completion" where
  "requestListener request s = s\<lparr>requests := insert request (requests s)\<rparr>"

definition requestFinishedListener :: "nat \<Rightarrow> ('r, 'e) completion \<Rightarrow> ('r, 'e) completion" where
  "requestFinishedListener request s =
     (let s' = s\<lparr>requests := requests s - {request}\<rparr>
      in if requests s' = {} then waitCallback s' else s')"

definition frameNavigateListener :: "bool \<Rightarrow> ('r, 'e) completion \<Rightarrow> ('r, 'e) completion" where
  "frameNavigateListener hasParentFrame s =
     (if hasParentFrame then s
      else (clearTimeout (dispose (s\<lparr>frameNavigated := True\<rparr>)))\<lparr>loadPending := True\<rparr>)"

definition onTimeout :: "('r, 'e) completion \<Rightarrow> ('r, 'e) completion" where
  "onTimeout s = waitCallback (dispose s)"

datatype ('r, 'e) event =
    RequestEvent nat
  | RequestFinishedEvent nat
  | FrameNavigatedEvent bool
  | TimerElapsed
  | LoadStateReached
  | CallbackResolved 'r
  | CallbackRejected 'e
  | BarrierContinues
  | QuietElapsed
  | QuietRejected 'e

text \<open>The state after the three \<open>tab.page.on\<close> calls and \<open>setTimeout(onTimeout, 10000)\<close>,
  when \<open>callback()\<close> is awaited; then one step per event, with the body of the \<open>try\<close>
  block spread over the events that settle its three \<open>await\<close>s.\<close>

definition initial :: "('r, 'e) completion" where
  "initial =
     \<lparr>attached = {RequestListener, RequestFinishedListener, FrameNavigateListener},
      timerPending = True, requests = {}, frameNavigated = False, barrierResolved = False,
      loadPending = False, phase = AwaitingCallback, trace = []\<rparr>"

fun step :: "('r, 'e) completion \<Rightarrow> ('r, 'e) event \<Rightarrow> ('r, 'e) completion" where
  "step s (RequestEvent r) =
     (if RequestListener \<in> attached s then requestListener r s else s)"
| "step s (RequestFinishedEvent r) =
     (if RequestFinishedListener \<in> attached s then requestFinishedListener r s else s)"
| "step s (FrameNavigatedEvent hasParentFrame) =
     (if FrameNavigateListener \<in> attached s then frameNavigateListener hasParentFrame s else s)"
| "step s TimerElapsed =
     (if timerPending s
      then onTimeout (s\<lparr>timerPending := False, trace := trace s @ [TimerFired]\<rparr>)
      else s)"
| "step s LoadStateReached =
     (if loadPending s then waitCallback (s\<lparr>loadPending := False\<rparr>) else s)"
| "step s (CallbackResolved result) =
     (case phase s of
        AwaitingCallback \<Rightarrow>
          (if requests s = {} \<and> \<not> frameNavigated s then waitCallback s else s)
            \<lparr>phase := AwaitingBarrier result\<rparr>
      | _ \<Rightarrow> s)"
| "step s (CallbackRejected e) =
     (case phase s of
        AwaitingCallback \<Rightarrow> (dispose s)\<lparr>phase := Thrown e\<rparr>
      | _ \<Rightarrow> s)"
| "step s BarrierContinues =
     (case phase s of
        AwaitingBarrier result \<Rightarrow>
          if barrierResolved s then s\<lparr>phase := AwaitingQuiet result\<rparr> else s
      | _ \<Rightarrow> s)"
| "step s QuietElapsed =
     (case phase s of
        AwaitingQuiet result \<Rightarrow> (dispose s)\<lparr>phase := Returned result\<rparr>
      | _ \<Rightarrow> s)"
| "step s (QuietRejected e) =
     (case phase s of
        AwaitingQuiet result \<Rightarrow> (dispose s)\<lparr>phase := Thrown e\<rparr>
      | _ \<Rightarrow> s)"

definition waitForCompletion :: "('r, 'e) event list \<Rightarrow> ('r, 'e) completion" where
  "waitForCompletion events = foldl step initial events"

text \<open>What the cleanup property speaks about: the call has returned or thrown; how many
  \<open>page.off\<close> calls removed a listener, how many were made, and how often the timer ended
  (fired, or cleared while pending). \<open>cleanupInv\<close> is the invariant of the steps.\<close>

definition exited :: "('r, 'e) completion \<Rightarrow> bool" where
  "exited s = (case phase s of Returned r \<Rightarrow> True | Thrown e \<Rightarrow> True | _ \<Rightarrow> False)"

definition released :: "('r, 'e) completion \<Rightarrow> listener \<Rightarrow> nat" where
  "released s l = count_list (trace s) (Off l True)"

definition offCalls :: "('r, 'e) completion \<Rightarrow> listener \<Rightarrow> nat" where
  "offCalls s l = count_list (trace s) (Off l True) + count_list (trace s) (Off l False)"

definition timerEnded :: "('r, 'e) completion \<Rightarrow> nat" where
  "timerEnded s = count_list (trace s) TimerFired + count_list (trace s) (ClearTimeout True)"

definition cleanupInv :: "('r, 'e) completion \<Rightarrow> bool" where
  "cleanupInv s =
     (attached s = (if timerPending s then UNIV else {}) \<and>
      (\<forall>l. released s l = (if l \<in> attached s then 0 else 1)) \<and>
      (\<forall>l. count_list (trace s) (Off l False) \<le> (if exited s then 1 else 0)) \<and>
      timerEnded s = (if timerPending s then 0 else 1) \<and>
      (exited s \<longrightarrow> attached s = {} \<and> \<not> timerPending s))"

section \<open>Properties of the rounding\<close>

lemma ilog2_bounds:
  assumes "0 < x"
  shows "2 powi (ilog2 x) \<le> x" and "x < 2 powi (ilog2 x + 1)"
proof -
  have "2 powi (ilog2 x) \<le> x \<and> x < 2 powi (ilog2 x + 1)"
  proof (cases "1 \<le> x")
    case True
    define n where "n = \<lfloor>x\<rfloor>"
    have n: "0 < n" "of_int n \<le> x" "x < of_int n + 1"
      using True floor_correct [of x] by (simp_all add: n_def)
    from bitlen_bounds [OF n(1)] have b: "2 ^ nat (bitlen n - 1) \<le> n" "n < 2 ^ nat (bitlen n)"
      by simp_all
    have pos: "1 \<le> bitlen n" using n(1) by (simp add: bitlen_alt_def)
    have e: "ilog2 x = bitlen n - 1" using True by (simp add: ilog2_def n_def)
    have "(2::rat) powi (bitlen n - 1) = of_int (2 ^ nat (bitlen n - 1))"
      using pos by (simp add: power_int_def)
    also have "\<dots> \<le> of_int n" using b(1) by simp
    finally have lo: "2 powi (ilog2 x) \<le> x" using n(2) e by simp
    have "n + 1 \<le> 2 ^ nat (bitlen n)" using b(2) by simp
    then have "(of_int (n + 1) :: rat) \<le> 2 ^ nat (bitlen n)"
      by (metis of_int_le_numeral_power_cancel_iff)
    also have "\<dots> = 2 powi (bitlen n)" using pos by (simp add: power_int_def)
    finally have "x < 2 powi (ilog2 x + 1)" using n(3) e by simp
    with lo show ?thesis ..
  next
    case False
    define y where "y = 1 / x"
    define n where "n = \<lceil>y\<rceil>"
    define c where "c = n - 1"
    have y: "1 < y" using False assms by (simp add: y_def)
    have n: "y \<le> of_int n" "of_int n - 1 < y"
      using ceiling_correct [of y] by (simp_all add: n_def)
    have "1 < n" using y n(1) by (simp add: n_def less_ceiling_iff)
    then have c: "0 < c" by (simp add: c_def)
    from bitlen_bounds [OF c] have b: "2 ^ nat (bitlen c - 1) \<le> c" "c < 2 ^ nat (bitlen c)"
      by simp_all
    have pos: "1 \<le> bitlen c" using c by (simp add: bitlen_alt_def)
    have e: "ilog2 x = - bitlen c" using False by (simp add: ilog2_def n_def c_def y_def)
    have xy: "x = 1 / y" using assms by (simp add: y_def)
    have "n \<le> 2 ^ nat (bitlen c)" using b(2) by (simp add: c_def)
    then have "(of_int n :: rat) \<le> 2 ^ nat (bitlen c)" by simp
    with n(1) have "y \<le> 2 ^ nat (bitlen c)" by (rule order_trans)
    then have "1 / 2 ^ nat (bitlen c) \<le> 1 / y"
      using y by (simp add: frac_le)
    moreover have "(2::rat) powi (- bitlen c) = 1 / 2 ^ nat (bitlen c)"
      using pos by (simp add: power_int_def field_simps)
    ultimately have lo: "2 powi (ilog2 x) \<le> x" using e xy by simp
    have "(2 ^ nat (bitlen c - 1) :: rat) \<le> of_int c"
      using b(1) by simp
    also have "\<dots> < y" using n(2) by (simp add: c_def)
    finally have "2 ^ nat (bitlen c - 1) < y" .
    then have "1 / y < 1 / 2 ^ nat (bitlen c - 1)"
      by (simp add: frac_less2)
    moreover have "(2::rat) powi (- bitlen c + 1) = 1 / 2 ^ nat (bitlen c - 1)"
      using pos by (simp add: power_int_def field_simps)
    ultimately have "x < 2 powi (ilog2 x + 1)" using e xy by simp
    with lo show ?thesis ..
  qed
  then show "2 powi (ilog2 x) \<le> x" and "x < 2 powi (ilog2 x + 1)" by simp_all
qed


lemma roundTiesToEven_bounds:
  "\<lfloor>m\<rfloor> \<le> roundTiesToEven m" "roundTiesToEven m \<le> \<lceil>m\<rceil>"
  "\<bar>of_int (roundTiesToEven m) - m\<bar> \<le> 1 / 2"
proof -
  define f where "f = \<lfloor>m\<rfloor>"
  define d where "d = m - of_int f"
  have d: "0 \<le> d" "d < 1" using floor_correct [of m] by (simp_all add: d_def f_def)
  have r: "roundTiesToEven m = (if d < 1 / 2 then f else if d > 1 / 2 then f + 1
      else if even f then f else f + 1)"
    by (simp add: roundTiesToEven_def Let_def f_def d_def)
  show "\<lfloor>m\<rfloor> \<le> roundTiesToEven m" unfolding r f_def [symmetric] by simp
  have c: "d \<noteq> 0 \<Longrightarrow> \<lceil>m\<rceil> = f + 1"
    using d by (simp add: ceiling_unique d_def)
  have c0: "d = 0 \<Longrightarrow> \<lceil>m\<rceil> = f"
    by (simp add: d_def)
  show "roundTiesToEven m \<le> \<lceil>m\<rceil>"
    using c c0 d unfolding r by (cases "d = 0") auto
  have m: "m = of_int f + d" by (simp add: d_def)
  have "\<bar>of_int (if d < 1 / 2 then f else if d > 1 / 2 then f + 1
      else if even f then f else f + 1) - (of_int f + d)\<bar> \<le> 1 / 2"
    using d by (auto simp: abs_if)
  then show "\<bar>of_int (roundTiesToEven m) - m\<bar> \<le> 1 / 2"
    unfolding r using m by simp
qed

lemma roundTiesToEven_of_int [simp]: "roundTiesToEven (of_int k) = k"
  by (simp add: roundTiesToEven_def)

lemma roundTiesToEven_le: "m \<le> of_int K \<Longrightarrow> roundTiesToEven m \<le> K"
  using roundTiesToEven_bounds(2) [of m] by (simp add: ceiling_le_iff order_trans [of _ "\<lceil>m\<rceil>"] ceiling_le)

lemma roundTiesToEven_ge: "of_int K \<le> m \<Longrightarrow> K \<le> roundTiesToEven m"
  using roundTiesToEven_bounds(1) [of m] by (simp add: le_floor_iff order_trans [of _ "\<lfloor>m\<rfloor>"])

lemma fl_pos:
  "0 < x \<Longrightarrow> fl x = of_int (roundTiesToEven (x / 2 powi (ilog2 x - 52))) * 2 powi (ilog2 x - 52)"
  by (simp add: fl_def Let_def)

lemma fl_zero [simp]: "fl 0 = 0"
  by (simp add: fl_def)

lemma fl_minus: "fl (- x) = - fl x"
  by (simp add: fl_def Let_def sgn_minus)

lemma fl_nonneg: "0 \<le> x \<Longrightarrow> 0 \<le> fl x"
proof (cases "x = 0")
  case False
  assume "0 \<le> x"
  with False have x: "0 < x" by simp
  have "of_int 0 \<le> x / 2 powi (ilog2 x - 52)" using x by simp
  then have "0 \<le> roundTiesToEven (x / 2 powi (ilog2 x - 52))" by (rule roundTiesToEven_ge)
  then show ?thesis using x by (simp add: fl_pos)
qed simp

lemma fl_le_nat:
  assumes "0 < x" and "x \<le> of_nat n" and "n \<le> 2 ^ 53"
  shows "fl x \<le> of_nat n"
proof -
  define e where "e = ilog2 x"
  define u :: rat where "u = 2 powi (e - 52)"
  have u: "0 < u" by (simp add: u_def)
  have f: "fl x = of_int (roundTiesToEven (x / u)) * u"
    using assms(1) by (simp add: fl_pos u_def e_def)
  have lo: "2 powi e \<le> x" using ilog2_bounds(1) [OF assms(1)] by (simp add: e_def)
  show ?thesis
  proof (cases "e \<le> 52")
    case True
    define K where "K = int n * 2 ^ nat (52 - e)"
    have "u = 1 / 2 ^ nat (52 - e)"
      using True by (simp add: u_def power_int_def field_simps)
    then have K: "of_int K = of_nat n / u" by (simp add: K_def)
    have "x / u \<le> of_nat n / u" using assms(2) u by (simp add: divide_right_mono)
    then have "roundTiesToEven (x / u) \<le> K" unfolding K [symmetric] by (rule roundTiesToEven_le)
    then have "(of_int (roundTiesToEven (x / u)) :: rat) \<le> of_int K" unfolding of_int_le_iff .
    then have "fl x \<le> of_int K * u" unfolding f using u by (simp add: mult_right_mono)
    then show ?thesis using u by (simp add: K)
  next
    case False
    have "(of_nat n :: rat) \<le> 2 ^ 53" using assms(3)
      by (metis of_nat_le_iff of_nat_numeral of_nat_power)
    with assms(2) lo have le: "(2::rat) powi e \<le> 2 ^ 53" and x53: "x \<le> 2 ^ 53" by simp_all
    have "(2::rat) powi e = 2 ^ nat e" using False by (simp add: power_int_def)
    with le have "(2::rat) ^ nat e \<le> 2 ^ 53" by (simp only:)
    then have "nat e \<le> 53" by (rule power_le_imp_le_exp [rotated]) simp
    with False have e53: "e = 53" by simp
    with lo have "2 ^ 53 \<le> x" by simp
    with x53 have x: "x = 2 ^ 53" by simp
    with assms(2) have n: "(2 ^ 53 :: rat) \<le> of_nat n" by simp
    have "u = 2" by (simp add: u_def e53)
    then have "x / u = of_int (2 ^ 52)" by (simp add: x)
    then have "roundTiesToEven (x / u) = 2 ^ 52" by (simp only: roundTiesToEven_of_int)
    then have "fl x = 2 ^ 53" unfolding f \<open>u = 2\<close> by simp
    with n show ?thesis by simp
  qed
qed

lemma fl_of_nat:
  assumes "n \<le> 2 ^ 53"
  shows "fl (of_nat n) = of_nat n"
proof (cases "n = 0")
  case False
  define x :: rat where "x = of_nat n"
  have x: "0 < x" using False by (simp add: x_def)
  define e where "e = ilog2 x"
  define u :: rat where "u = 2 powi (e - 52)"
  have u: "0 < u" by (simp add: u_def)
  have f: "fl x = of_int (roundTiesToEven (x / u)) * u"
    using x by (simp add: fl_pos u_def e_def)
  have lo: "2 powi e \<le> x" using ilog2_bounds(1) [OF x] by (simp add: e_def)
  have x53: "x \<le> 2 ^ 53" unfolding x_def using assms
    by (metis of_nat_le_iff of_nat_numeral of_nat_power)
  have "fl x = x"
  proof (cases "e \<le> 52")
    case True
    define K where "K = int n * 2 ^ nat (52 - e)"
    have "u = 1 / 2 ^ nat (52 - e)"
      using True by (simp add: u_def power_int_def field_simps)
    then have K: "of_int K = x / u" by (simp add: K_def x_def)
    show ?thesis unfolding f K [symmetric] roundTiesToEven_of_int using u by (simp add: K)
  next
    case False
    from x53 lo have le: "(2::rat) powi e \<le> 2 ^ 53" by simp
    have "(2::rat) powi e = 2 ^ nat e" using False by (simp add: power_int_def)
    with le have "(2::rat) ^ nat e \<le> 2 ^ 53" by (simp only:)
    then have "nat e \<le> 53" by (rule power_le_imp_le_exp [rotated]) simp
    with False have e53: "e = 53" by simp
    with lo have "2 ^ 53 \<le> x" by simp
    with x53 have x: "x = 2 ^ 53" by simp
    have "u = 2" by (simp add: u_def e53)
    then have "x / u = of_int (2 ^ 52)" by (simp add: x)
    then have "roundTiesToEven (x / u) = 2 ^ 52" by (simp only: roundTiesToEven_of_int)
    then show ?thesis unfolding f \<open>u = 2\<close> by (simp add: x)
  qed
  then show ?thesis by (simp add: x_def)
qed simp



lemma fl_error:
  assumes "0 < x"
  shows "\<bar>fl x - x\<bar> \<le> x / 2 ^ 53"
proof -
  define e where "e = ilog2 x"
  define u :: rat where "u = 2 powi (e - 52)"
  have u: "0 < u" by (simp add: u_def)
  have f: "fl x = of_int (roundTiesToEven (x / u)) * u"
    using assms by (simp add: fl_pos u_def e_def)
  have lo: "2 powi e \<le> x" using ilog2_bounds(1) [OF assms] by (simp add: e_def)
  have "u = 2 powi e / 2 ^ 52" by (simp add: u_def power_int_diff)
  with lo have ux: "u \<le> x / 2 ^ 52" by (simp add: divide_right_mono)
  have "fl x - x = (of_int (roundTiesToEven (x / u)) - x / u) * u"
    using u by (simp add: f field_simps)
  then have "\<bar>fl x - x\<bar> = \<bar>of_int (roundTiesToEven (x / u)) - x / u\<bar> * u"
    using u by (simp add: abs_mult)
  also have "\<dots> \<le> (1 / 2) * u"
    using roundTiesToEven_bounds(3) [of "x / u"] u by (intro mult_right_mono) simp_all
  also have "\<dots> \<le> (1 / 2) * (x / 2 ^ 52)" using ux by simp
  also have "\<dots> = x / 2 ^ 53" by simp
  finally show ?thesis .
qed

lemma split_bounds:
  fixes b :: int and lf tl :: nat
  assumes "0 < b" and "b \<le> 2 ^ 53" and "lf \<le> tl" and "0 < tl"
  shows "0 \<le> \<lfloor>fl (of_int b * fl (of_nat lf / of_nat tl))\<rfloor>"
    and "\<lfloor>fl (of_int b * fl (of_nat lf / of_nat tl))\<rfloor> \<le> b"
proof -
  define r where "r = fl (of_nat lf / of_nat tl)"
  have q1: "(of_nat lf / of_nat tl :: rat) \<le> of_nat 1" using assms(3,4) by simp
  have r0: "0 \<le> r" unfolding r_def by (rule fl_nonneg) simp
  have r1: "r \<le> 1"
  proof (cases "lf = 0")
    case True
    then show ?thesis by (simp add: r_def)
  next
    case False
    then have "0 < (of_nat lf / of_nat tl :: rat)" using assms(4) by simp
    from fl_le_nat [OF this q1] show ?thesis by (simp add: r_def)
  qed
  have p0: "0 \<le> fl (of_int b * r)" using r0 assms(1) by (intro fl_nonneg) simp
  then show "0 \<le> \<lfloor>fl (of_int b * fl (of_nat lf / of_nat tl))\<rfloor>"
    by (simp add: r_def)
  have bn: "(of_nat (nat b) :: rat) = of_int b" using assms(1) by simp
  have nb: "nat b \<le> 2 ^ 53" using assms(1,2) by (simp add: nat_le_iff)
  have "fl (of_int b * r) \<le> of_nat (nat b)"
  proof (cases "r = 0")
    case True
    then show ?thesis by simp
  next
    case False
    with r0 have "0 < of_int b * r" using assms(1) by simp
    moreover have "of_int b * r \<le> of_int b * 1"
      using r1 assms(1) by (intro mult_left_mono) simp_all
    then have "of_int b * r \<le> of_nat (nat b)" unfolding bn by simp
    ultimately show ?thesis using nb by (rule fl_le_nat)
  qed
  then have "fl (of_int b * r) \<le> of_int b" unfolding bn .
  then have "\<lfloor>fl (of_int b * r)\<rfloor> \<le> b" by (simp add: floor_le_iff) 
  then show "\<lfloor>fl (of_int b * fl (of_nat lf / of_nat tl))\<rfloor> \<le> b" by (simp add: r_def)
qed

lemma fl_of_int:
  assumes "\<bar>k\<bar> \<le> 2 ^ 53"
  shows "fl (of_int k) = of_int k"
proof (cases "0 \<le> k")
  case True
  then have "nat k \<le> 2 ^ 53" using assms by (simp add: nat_le_iff)
  from fl_of_nat [OF this] show ?thesis using True by simp
next
  case False
  then have "nat (- k) \<le> 2 ^ 53" using assms by (simp add: nat_le_iff)
  from fl_of_nat [OF this] have "fl (of_int (- k)) = of_int (- k)" using False by simp
  then show ?thesis by (simp add: fl_minus)
qed

lemma split_close:
  fixes b :: int and lf tl :: nat
  assumes "0 < b" and "lf \<le> tl" and "0 < tl" and "b * int tl \<le> 2 ^ 51"
  defines "bf \<equiv> \<lfloor>fl (of_int b * fl (of_nat lf / of_nat tl))\<rfloor>"
    and "k \<equiv> (b * int lf) div int tl"
  shows "k - 1 \<le> bf" and "bf \<le> k" and "\<not> int tl dvd b * int lf \<Longrightarrow> bf = k"
proof -
  define q0 :: rat where "q0 = of_nat lf / of_nat tl"
  define r where "r = fl q0"
  define p where "p = fl (of_int b * r)"
  define q :: rat where "q = of_int b * q0"
  define m where "m = (b * int lf) mod int tl"
  define eps :: rat where "eps = 1 / 2 ^ 53"
  define dl :: rat where "dl = 1 / of_nat tl"
  have bf: "bf = \<lfloor>p\<rfloor>" by (simp add: bf_def p_def r_def q0_def)
  have m: "0 \<le> m" "m < int tl" using assms(3) by (simp_all add: m_def)
  have km: "b * int lf = k * int tl + m" by (simp add: k_def m_def)
  have tl: "(0::rat) < of_nat tl" using assms(3) by simp
  have "q = of_int (b * int lf) / of_nat tl" by (simp add: q_def q0_def)
  also have "\<dots> = of_int (k * int tl + m) / of_nat tl" by (simp only: km)
  also have "\<dots> = of_int k + of_int m * dl"
    using tl by (simp add: dl_def field_simps)
  finally have qk: "q = of_int k + of_int m * dl" .
  have dl: "0 < dl" using tl by (simp add: dl_def)
  have close: "\<bar>p - q\<bar> < dl"
  proof (cases "lf = 0")
    case True
    then show ?thesis using dl by (simp add: p_def q_def r_def q0_def)
  next
    case False
    have q0: "0 < q0" "q0 \<le> 1" using False assms(2,3) by (simp_all add: q0_def)
    have eps: "0 < eps" "eps < 1" by (simp_all add: eps_def)
    have e1: "\<bar>r - q0\<bar> \<le> q0 * eps" using fl_error [OF q0(1)] by (simp add: r_def eps_def)
    then have rlo: "q0 * (1 - eps) \<le> r" and rhi: "r \<le> q0 * (1 + eps)"
      by (simp_all add: abs_le_iff algebra_simps)
    have "0 < q0 * (1 - eps)" using q0(1) eps by simp
    with rlo have r: "0 < r" by simp
    have bpos: "(0::rat) < of_int b" using assms(1) by simp
    have br: "0 < of_int b * r" using r bpos by simp
    have e2: "\<bar>p - of_int b * r\<bar> \<le> of_int b * r * eps"
      using fl_error [OF br] by (simp add: p_def eps_def)
    have "of_int b * r * eps \<le> of_int b * (q0 * (1 + eps)) * eps"
      using rhi bpos eps by (intro mult_right_mono mult_left_mono) simp_all
    with e2 have e2': "\<bar>p - of_int b * r\<bar> \<le> q * (1 + eps) * eps"
      by (simp add: q_def mult.assoc)
    have "\<bar>of_int b * r - q\<bar> = of_int b * \<bar>r - q0\<bar>"
      using bpos by (simp add: q_def abs_mult right_diff_distrib [symmetric])
    also have "\<dots> \<le> of_int b * (q0 * eps)" using e1 bpos by (intro mult_left_mono) simp_all
    finally have e3: "\<bar>of_int b * r - q\<bar> \<le> q * eps" by (simp add: q_def mult.assoc)
    have qpos: "0 < q" using q0(1) bpos by (simp add: q_def)
    have qb: "q \<le> of_int b" using q0(2) bpos by (simp add: q_def mult_left_le)
    have "\<bar>p - q\<bar> \<le> \<bar>p - of_int b * r\<bar> + \<bar>of_int b * r - q\<bar>" by simp
    also have "\<dots> \<le> q * (1 + eps) * eps + q * eps" using e2' e3 by simp
    also have "\<dots> = q * (eps * (2 + eps))" by (simp add: algebra_simps)
    also have "\<dots> \<le> q * (3 * eps)" using qpos eps by (intro mult_left_mono) simp_all
    also have "\<dots> \<le> of_int b * (3 * eps)" using qb eps by (intro mult_right_mono) simp_all
    also have "\<dots> < dl"
    proof -
      have "(of_int (b * int tl) :: rat) \<le> of_int (2 ^ 51)" using assms(4) unfolding of_int_le_iff .
      then have "of_int b * of_nat tl \<le> (2 ^ 51 :: rat)" by simp
      then have "of_int b * of_nat tl * (3 * eps) \<le> 2 ^ 51 * (3 * eps)"
        using eps by (intro mult_right_mono) simp_all
      also have "\<dots> < 1" by (simp add: eps_def)
      finally have "of_int b * (3 * eps) * of_nat tl < 1" by (simp add: mult.commute mult.left_commute)
      then show ?thesis using tl by (simp add: dl_def field_simps)
    qed
    finally show ?thesis .
  qed
  then have plo: "q - dl < p" and phi: "p < q + dl" by (simp_all add: abs_less_iff)
  have "of_int m * dl + dl \<le> 1"
  proof -
    have "(of_int m + 1) * dl \<le> of_nat tl * dl"
      using m(2) dl by (intro mult_right_mono) (simp_all add: of_int_le_iff [symmetric, where ?'a = rat] del: of_int_le_iff)
    also have "of_nat tl * dl = 1" using tl by (simp add: dl_def)
    finally show ?thesis by (simp add: algebra_simps)
  qed
  with phi have "p < of_int (k + 1)" unfolding qk by simp
  then have "\<lfloor>p\<rfloor> < k + 1" unfolding floor_less_iff .
  then show "bf \<le> k" by (simp add: bf)
  have dl1: "dl \<le> 1" using assms(3) by (simp add: dl_def)
  have "0 \<le> of_int m * dl" using m(1) dl by simp
  with plo dl1 have "of_int (k - 1) < p" unfolding qk by simp
  then have "k - 1 \<le> \<lfloor>p\<rfloor>" unfolding le_floor_iff by (rule less_imp_le)
  then show "k - 1 \<le> bf" by (simp add: bf)
  show "bf = k" if "\<not> int tl dvd b * int lf"
  proof -
    from that have "m \<noteq> 0" by (simp add: m_def dvd_eq_mod_eq_0)
    with m(1) have "1 \<le> m" by simp
    then have "(1::rat) \<le> of_int m" by simp
    then have "1 * dl \<le> of_int m * dl" using dl by (intro mult_right_mono) simp_all
    with plo have "of_int k < p" unfolding qk by simp
    then have "k \<le> \<lfloor>p\<rfloor>" unfolding le_floor_iff by (rule less_imp_le)
    with \<open>bf \<le> k\<close> show ?thesis by (simp add: bf)
  qed
qed

section \<open>Properties of the limiter\<close>

lemma stringArrayTotalLength_sum:
  "stringArrayTotalLength strings = sum_list (map length strings)"
proof -
  have "foldl (\<lambda>len str. len + length str) a strings = a + sum_list (map length strings)" for a
    by (induction strings arbitrary: a) auto
  then show ?thesis by (simp add: stringArrayTotalLength_def)
qed

lemma jsGreater_Num [simp]: "jsGreater (Num a) (Num b) = (b < a)"
  by (simp add: jsGreater_def)

lemma jsGreater_NaN [simp]: "jsGreater x NaN = False"
  by (simp add: jsGreater_def split: number.splits)

lemma jsSlice_from: "0 \<le> k \<Longrightarrow> jsSlice xs k None = drop (nat k) xs"
  by (simp add: jsSlice_def relativeIndex_def Let_def min_def)

lemma jsSlice_upto: "0 \<le> k \<Longrightarrow> jsSlice xs 0 (Some k) = take (nat k) xs"
  by (simp add: jsSlice_def relativeIndex_def Let_def min_def)

lemma jsSlice_Nil [simp]: "jsSlice [] a b = []"
  by (simp add: jsSlice_def)

lemma stringArrayTrimToLength_Nil [simp]: "stringArrayTrimToLength [] m b = []"
  by (simp add: stringArrayTrimToLength_def)

lemma stringArrayApplyLimits_Nil:
  "0 \<le> maxTotalLength opts \<Longrightarrow> stringArrayApplyLimits [] opts = []"
  by (simp add: stringArrayApplyLimits_def stringArrayTotalLength_def Let_def
      split: option.splits)


lemma trimBackward_all_fit:
  "i < int (length strings) \<Longrightarrow> - 1 \<le> i \<Longrightarrow>
   of_nat (len + sum_list (map length (take (nat (i + 1)) strings))) \<le> m \<Longrightarrow>
   trimBackward strings (Num m) len index i = (if 0 \<le> i then 0 else index)"
proof (induction strings "Num m" len index i rule: trimBackward.induct)
  case (1 strings len index i)
  show ?case
  proof (cases "0 \<le> i")
    case False
    then show ?thesis by (simp add: trimBackward.simps)
  next
    case True
    define len' where "len' = len + length (strings ! nat i)"
    from True "1.prems" have i: "nat i < length strings" by simp
    have tk: "take (nat (i + 1)) strings = take (nat i) strings @ [strings ! nat i]"
      using True i by (simp add: nat_add_distrib take_Suc_conv_app_nth)
    have eq: "len + sum_list (map length (take (nat (i + 1)) strings)) =
              len' + sum_list (map length (take (nat i) strings))"
      by (simp add: tk len'_def)
    have fit: "\<not> jsGreater (Num (of_nat len')) (Num m)"
    proof -
      have "(of_nat len' :: rat) \<le> of_nat (len + sum_list (map length (take (nat (i + 1)) strings)))"
        unfolding of_nat_le_iff eq by simp
      with "1.prems"(3) show ?thesis by simp
    qed
    have "trimBackward strings (Num m) len' (nat i) (i - 1) = (if 0 \<le> i - 1 then 0 else nat i)"
    proof (rule "1.hyps" [OF True len'_def fit])
      show "i - 1 < int (length strings)" using "1.prems" by simp
      show "- 1 \<le> i - 1" using True by simp
      have "nat (i - 1 + 1) = nat i" by simp
      then show "of_nat (len' + sum_list (map length (take (nat (i - 1 + 1)) strings))) \<le> m"
        using "1.prems"(3) unfolding eq by simp
    qed
    then have "trimBackward strings (Num m) len' (nat i) (i - 1) = 0"
      using True by (auto split: if_splits)
    then show ?thesis
      using True fit by (subst trimBackward.simps) (simp add: Let_def len'_def)
  qed
qed


lemma trimForward_bounds:
  "index \<le> length strings \<Longrightarrow> i \<le> length strings \<Longrightarrow> trimForward strings mx len index i \<le> length strings"
proof (induction strings mx len index i rule: trimForward.induct)
  case (1 strings maxLength len index i)
  then show ?case
    by (subst trimForward.simps) (auto simp: Let_def)
qed

lemma trimBackward_bounds:
  "index \<le> length strings \<Longrightarrow> i < int (length strings) \<Longrightarrow> trimBackward strings mx len index i \<le> length strings"
proof (induction strings mx len index i rule: trimBackward.induct)
  case (1 strings maxLength len index i)
  then show ?case
    by (subst trimBackward.simps) (auto simp: Let_def)
qed

lemma trim_forward_take:
  "\<exists>k \<le> length xs. stringArrayTrimToLength xs mx False = take k xs"
  using trimForward_bounds [of 0 xs 0 mx 0]
  by (auto simp: stringArrayTrimToLength_def jsSlice_upto)

lemma trim_backward_drop:
  "\<exists>k \<le> length xs. stringArrayTrimToLength xs mx True = drop k xs"
  using trimBackward_bounds [of 0 xs "int (length xs) - 1" mx 0]
  by (auto simp: stringArrayTrimToLength_def jsSlice_from)

lemma trimForward_spec:
  "index = i \<Longrightarrow> i \<le> length strings \<Longrightarrow>
   (let k = trimForward strings (Num m) len index i in
      i \<le> k \<and> k \<le> length strings \<and>
      (i < k \<longrightarrow> of_nat (len + sum_list (map length (take (k - i) (drop i strings)))) \<le> m) \<and>
      (k < length strings \<longrightarrow> m < of_nat (len + sum_list (map length (take (k + 1 - i) (drop i strings))))))"
proof (induction strings "Num m" len index i rule: trimForward.induct)
  case (1 strings len index i)
  note [simp] = \<open>index = i\<close>
  show ?case
  proof (cases "i < length strings")
    case False
    then show ?thesis using "1.prems" by (subst trimForward.simps) (simp add: Let_def)
  next
    case True
    define len' where "len' = len + length (strings ! i)"
    have d: "drop i strings = strings ! i # drop (Suc i) strings"
      using True by (simp add: Cons_nth_drop_Suc)
    show ?thesis
    proof (cases "jsGreater (Num (of_nat len')) (Num m)")
      case g: True
      then have "trimForward strings (Num m) len i i = i"
        using True by (subst trimForward.simps) (simp add: Let_def len'_def)
      then show ?thesis using True g by (simp add: Let_def d len'_def)
    next
      case ng: False
      have step: "trimForward strings (Num m) len i i = trimForward strings (Num m) len' (i + 1) (i + 1)"
        using True ng by (subst trimForward.simps) (simp add: Let_def len'_def)
      have IH: "let k = trimForward strings (Num m) len' (i + 1) (i + 1) in
          i + 1 \<le> k \<and> k \<le> length strings \<and>
          (i + 1 < k \<longrightarrow> of_nat (len' + sum_list (map length (take (k - (i + 1)) (drop (i + 1) strings)))) \<le> m) \<and>
          (k < length strings \<longrightarrow> m < of_nat (len' + sum_list (map length (take (k + 1 - (i + 1)) (drop (i + 1) strings)))))"
        by (rule "1.hyps" [OF True len'_def ng]) (use True in simp_all)
      define k where "k = trimForward strings (Num m) len' (i + 1) (i + 1)"
      from IH have k: "i + 1 \<le> k" "k \<le> length strings"
        "i + 1 < k \<Longrightarrow> of_nat (len' + sum_list (map length (take (k - (i + 1)) (drop (i + 1) strings)))) \<le> m"
        "k < length strings \<Longrightarrow> m < of_nat (len' + sum_list (map length (take (k + 1 - (i + 1)) (drop (i + 1) strings))))"
        by (simp_all add: Let_def k_def)
      define X1 where "X1 = sum_list (map length (take (k - (i + 1)) (drop (i + 1) strings)))"
      define X2 where "X2 = sum_list (map length (take (k + 1 - (i + 1)) (drop (i + 1) strings)))"
      have t1: "len + sum_list (map length (take (k - i) (drop i strings))) = len' + X1"
        using k(1) by (simp add: d take_Cons' len'_def X1_def)
      have t2: "len + sum_list (map length (take (k + 1 - i) (drop i strings))) = len' + X2"
        using k(1) by (simp add: d take_Cons' len'_def X2_def)
      have a: "of_nat (len + sum_list (map length (take (k - i) (drop i strings)))) \<le> m"
      proof (cases "i + 1 < k")
        case True
        from k(3) [OF this] show ?thesis unfolding t1 X1_def .
      next
        case False
        with k(1) have "k = i + 1" by simp
        then have "X1 = 0" by (simp add: X1_def)
        then show ?thesis using ng unfolding t1 by simp
      qed
      have b: "m < of_nat (len + sum_list (map length (take (k + 1 - i) (drop i strings))))"
        if "k < length strings"
        using k(4) [OF that] unfolding t2 X2_def .
      have "trimForward strings (Num m) len index i = k"
        using step by (simp add: k_def)
      then show ?thesis
        using k(1,2) a b by (simp add: Let_def)
    qed
  qed
qed


lemma trimBackward_spec:
  "- 1 \<le> i \<Longrightarrow> i < int (length strings) \<Longrightarrow>
   (let j = nat (i + 1); k = trimBackward strings (Num m) len index i in
      (k = index \<and> (j = 0 \<or> m < of_nat (len + length (strings ! (j - 1))))) \<or>
      (k < j \<and> of_nat (len + sum_list (map length (drop k (take j strings)))) \<le> m \<and>
       (0 < k \<longrightarrow> m < of_nat (len + sum_list (map length (drop (k - 1) (take j strings)))))))"
proof (induction strings "Num m" len index i rule: trimBackward.induct)
  case (1 strings len index i)
  show ?case
  proof (cases "0 \<le> i")
    case False
    with "1.prems" have "i = - 1" by simp
    then show ?thesis by (subst trimBackward.simps) (simp add: Let_def)
  next
    case True
    define j' where "j' = nat i"
    define len' where "len' = len + length (strings ! j')"
    have j: "nat (i + 1) = Suc j'" "j' < length strings"
      using True "1.prems" by (simp_all add: j'_def nat_add_distrib)
    have tk: "take (Suc j') strings = take j' strings @ [strings ! j']"
      using j(2) by (simp add: take_Suc_conv_app_nth)
    show ?thesis
    proof (cases "jsGreater (Num (of_nat len')) (Num m)")
      case g: True
      then have "trimBackward strings (Num m) len index i = index"
        using True by (subst trimBackward.simps) (simp add: Let_def len'_def j'_def)
      then show ?thesis using g by (simp add: Let_def j len'_def)
    next
      case ng: False
      define k where "k = trimBackward strings (Num m) len' j' (i - 1)"
      have step: "trimBackward strings (Num m) len index i = k"
        using True ng by (subst trimBackward.simps) (simp add: Let_def len'_def j'_def k_def)
      have "nat (i - 1 + 1) = j'" by (simp add: j'_def)
      with "1.hyps" [OF True len'_def [unfolded j'_def] ng]
      have IH: "(k = j' \<and> (j' = 0 \<or> m < of_nat (len' + length (strings ! (j' - 1))))) \<or>
          (k < j' \<and> of_nat (len' + sum_list (map length (drop k (take j' strings)))) \<le> m \<and>
           (0 < k \<longrightarrow> m < of_nat (len' + sum_list (map length (drop (k - 1) (take j' strings))))))"
        using True "1.prems" by (simp add: Let_def k_def len'_def j'_def)
      have le: "of_nat len' \<le> m" using ng by simp
      have sum1: "(of_nat (len + sum_list (map length (drop n (take (Suc j') strings)))) :: rat) =
                  of_nat (len' + sum_list (map length (drop n (take j' strings))))"
        if "n \<le> j'" for n
        using that j(2) by (simp add: tk len'_def)
      from IH have "k < Suc j' \<and> of_nat (len + sum_list (map length (drop k (take (Suc j') strings)))) \<le> m \<and>
           (0 < k \<longrightarrow> m < of_nat (len + sum_list (map length (drop (k - 1) (take (Suc j') strings)))))"
      proof
        assume a: "k = j' \<and> (j' = 0 \<or> m < of_nat (len' + length (strings ! (j' - 1))))"
        then have kj: "k = j'" by simp
        have "m < of_nat (len + sum_list (map length (drop (k - 1) (take (Suc j') strings))))" if "0 < k"
        proof -
          from that kj a have m: "m < of_nat (len' + length (strings ! (j' - 1)))" by simp
          have "drop (j' - 1) (take j' strings) = [strings ! (j' - 1)]"
          proof -
            from that kj obtain n where n: "j' = Suc n" by (cases j') auto
            with j(2) have "take j' strings = take n strings @ [strings ! n]"
              by (simp add: take_Suc_conv_app_nth)
            moreover have "length (take n strings) = n" using n j(2) by simp
            ultimately show ?thesis using n by simp
          qed
          then show ?thesis using m sum1 [of "j' - 1"] kj by simp
        qed
        then show ?thesis using kj le sum1 [of j'] by simp
      next
        assume b: "k < j' \<and> of_nat (len' + sum_list (map length (drop k (take j' strings)))) \<le> m \<and>
           (0 < k \<longrightarrow> m < of_nat (len' + sum_list (map length (drop (k - 1) (take j' strings)))))"
        then have "k \<le> j'" "k - 1 \<le> j'" by auto
        from b sum1 [OF this(1)] sum1 [OF this(2)] show ?thesis by simp
      qed
      then show ?thesis
        unfolding step Let_def j by blast
    qed
  qed
qed


lemma trim_first_spec:
  "\<exists>k \<le> length xs. stringArrayTrimToLength xs (Num m) False = take k xs \<and>
     (0 < k \<longrightarrow> of_nat (sum_list (map length (take k xs))) \<le> m) \<and>
     (k < length xs \<longrightarrow> m < of_nat (sum_list (map length (take (k + 1) xs))))"
  using trimForward_spec [of 0 0 xs m 0]
  by (auto simp: Let_def stringArrayTrimToLength_def jsSlice_upto)

lemma trim_last_spec:
  "\<exists>k \<le> length xs. stringArrayTrimToLength xs (Num m) True = drop k xs \<and>
     ((k = 0 \<and> (xs = [] \<or> m < of_nat (length (last xs)))) \<or>
      (k < length xs \<and> of_nat (sum_list (map length (drop k xs))) \<le> m \<and>
       (0 < k \<longrightarrow> m < of_nat (sum_list (map length (drop (k - 1) xs))))))"
proof (cases "xs = []")
  case True
  then show ?thesis by simp
next
  case False
  define k where "k = trimBackward xs (Num m) 0 0 (int (length xs) - 1)"
  have n: "nat (int (length xs) - 1 + 1) = length xs" using False by simp
  have r: "stringArrayTrimToLength xs (Num m) True = drop k xs"
    by (simp add: stringArrayTrimToLength_def jsSlice_from k_def)
  from trimBackward_spec [of "int (length xs) - 1" xs m 0 0]
  have "(k = 0 \<and> m < of_nat (length (last xs))) \<or>
      (k < length xs \<and> of_nat (sum_list (map length (drop k xs))) \<le> m \<and>
       (0 < k \<longrightarrow> m < of_nat (sum_list (map length (drop (k - 1) xs)))))"
    using False unfolding Let_def n k_def [symmetric] by (simp add: last_conv_nth)
  moreover from this have "k \<le> length xs" by auto
  ultimately show ?thesis using r by blast
qed

lemma trim_last_too_long:
  assumes "xs \<noteq> []" and "m < of_nat (length (last xs))"
  shows "stringArrayTrimToLength xs (Num m) True = xs"
proof -
  from trim_last_spec [of xs m] obtain k where k: "k \<le> length xs"
    "stringArrayTrimToLength xs (Num m) True = drop k xs"
    "(k = 0 \<and> (xs = [] \<or> m < of_nat (length (last xs)))) \<or>
      (k < length xs \<and> of_nat (sum_list (map length (drop k xs))) \<le> m \<and>
       (0 < k \<longrightarrow> m < of_nat (sum_list (map length (drop (k - 1) xs)))))"
    by blast
  have "k = 0"
  proof (rule ccontr)
    assume "k \<noteq> 0"
    with k(3) have lt: "k < length xs" and le: "of_nat (sum_list (map length (drop k xs))) \<le> m" by auto
    from lt have "last (drop k xs) = last xs" by simp
    moreover from lt have "drop k xs \<noteq> []" by simp
    ultimately have "last xs \<in> set (drop k xs)" by (metis last_in_set)
    then have "length (last xs) \<le> sum_list (map length (drop k xs))"
      by (simp add: member_le_sum_list)
    then have "(of_nat (length (last xs)) :: rat) \<le> of_nat (sum_list (map length (drop k xs)))"
      unfolding of_nat_le_iff .
    with le assms(2) show False by simp
  qed
  with k(2) show ?thesis by simp
qed

text \<open>
  Claim C7 (full pass). When the total length of the lines is at most the budget and neither
  \<open>countFirst\<close> nor \<open>countLast\<close> is given (absent, or the falsy \<open>0\<close>), the result is the
  input list itself: the same lines in the same order, and no marker.
\<close>

theorem full_pass_unchanged:
  assumes "int (stringArrayTotalLength strings) \<le> maxTotalLength opts"
    and "countFirst opts = None \<or> countFirst opts = Some 0"
    and "countLast opts = None \<or> countLast opts = Some 0"
  shows "stringArrayApplyLimits strings opts = strings"
proof -
  have "of_nat (0 + sum_list (map length (take (nat (int (length strings) - 1 + 1)) strings)))
        \<le> (of_int (maxTotalLength opts) :: rat)"
  proof -
    have "(of_int (int (stringArrayTotalLength strings)) :: rat) \<le> of_int (maxTotalLength opts)"
      using assms(1) unfolding of_int_le_iff .
    then show ?thesis by (simp add: stringArrayTotalLength_sum)
  qed
  then have "trimBackward strings (Num (of_int (maxTotalLength opts))) 0 0 (int (length strings) - 1) = 0"
    by (subst trimBackward_all_fit) auto
  then have "stringArrayTrimToLength strings (Num (of_int (maxTotalLength opts))) True = strings"
    by (simp add: stringArrayTrimToLength_def jsSlice_from)
  moreover have "truthyNumber (countFirst opts) = None" "truthyNumber (countLast opts) = None"
    using assms(2,3) by (auto simp: truthyNumber_def)
  ultimately show ?thesis
    by (simp add: stringArrayApplyLimits_def Let_def)
qed


theorem full_pass_unchanged_witness:
  "int (stringArrayTotalLength [''ab'', ''c'']) \<le> 3 \<and>
   stringArrayApplyLimits [''ab'', ''c'']
     \<lparr>maxTotalLength = 3, countFirst = None, countLast = None\<rparr> = [''ab'', ''c'']"
  using full_pass_unchanged
    [of "[''ab'', ''c'']" "\<lparr>maxTotalLength = 3, countFirst = None, countLast = None\<rparr>"]
  by (simp add: stringArrayTotalLength_def)

lemma jsSlice_first: "0 < F \<Longrightarrow> jsSlice strings 0 (Some F) = take (nat F) strings"
  by (simp add: jsSlice_upto)

lemma jsSlice_last:
  "0 < L \<Longrightarrow> jsSlice strings (- L) None = drop (length strings - nat L) strings"
  by (simp add: jsSlice_def relativeIndex_def Let_def max_def nat_diff_distrib')

lemma truthyNumber_Some: "0 < F \<Longrightarrow> truthyNumber (Some F) = Some F"
  by (simp add: truthyNumber_def)

lemma rat_of_nat_le_of_int: "((of_nat n :: rat) \<le> of_int z) = (int n \<le> z)"
  by (metis of_int_le_iff of_int_of_nat_eq)

lemma rat_of_int_less_of_nat: "((of_int z :: rat) < of_nat n) = (z < int n)"
  by (metis of_int_less_iff of_int_of_nat_eq)

text \<open>
  Claim C1 (budget respected) fails on the code. The backward loop of
  \<open>stringArrayTrimToLength\<close> starts with \<open>index = 0\<close>; when the very last line is longer
  than the budget it breaks at once and \<open>strings.slice(0)\<close> returns every line instead of
  none (the forward loop, whose \<open>index = 0\<close> means "keep nothing", is right). So with
  budget 3 the lines \<open>a\<close>, \<open>bbbb\<close> (5 characters) come back whole, with no count, with
  \<open>last\<close>, and on the last side when both counts are given; and the console tool returns
  more than its 2000 characters when the last message is longer than that.
\<close>

theorem budget_exceeded_when_last_line_too_long:
  "stringArrayApplyLimits [''a'', ''bbbb'']
     \<lparr>maxTotalLength = 3, countFirst = None, countLast = None\<rparr> = [''a'', ''bbbb''] \<and>
   stringArrayTotalLength [''a'', ''bbbb''] = 5 \<and>
   stringArrayApplyLimits [''a'', ''bbbb'']
     \<lparr>maxTotalLength = 3, countFirst = None, countLast = Some 2\<rparr> = [''a'', ''bbbb''] \<and>
   stringArrayApplyLimits [''a'', ''bbbb'']
     \<lparr>maxTotalLength = 3, countFirst = Some 1, countLast = Some 1\<rparr> =
     [''[1 messages skipped]'', ''bbbb''] \<and>
   consoleHandle \<lparr>regExp = (\<lambda>p. None), urlHostname = (\<lambda>u. None), toUpperCase = (\<lambda>s. s)\<rparr>
     \<lparr>pInclude = None, pExclude = None, pFirst = None, pLast = None\<rparr>
     [\<lparr>msgType = ''log'', msgText = ''a'', msgToString = ''[LOG] a''\<rparr>,
      \<lparr>msgType = ''log'', msgText = replicate 2001 CHR ''x'',
       msgToString = replicate 2001 CHR ''x''\<rparr>] =
     Inr [''[LOG] a'', replicate 2001 CHR ''x'']"
  (is "?A \<and> ?B \<and> ?C \<and> ?D \<and> ?E")
proof -
  have abcd: "?A \<and> ?B \<and> ?C \<and> ?D" by code_simp
  have "stringArrayTrimToLength [''[LOG] a'', replicate 2001 CHR ''x'']
      (Num (of_int MAX_TOTAL_TEXT_LENGTH)) True = [''[LOG] a'', replicate 2001 CHR ''x'']"
    by (rule trim_last_too_long) (simp_all add: MAX_TOTAL_TEXT_LENGTH_def)
  then have ?E
    by (simp add: consoleHandle_def consoleFilterMessages_def stringArrayApplyLimits_def
        truthyNumber_def Let_def)
  with abcd show ?thesis by blast
qed

text \<open>
  Claim C2 (marker accuracy) as stated fails twice. With only \<open>first = 2\<close> over three
  lines and budget 3 the marker says 1, yet two source lines (\<open>bb\<close>, \<open>cc\<close>) are not in
  the result: the "trimmed" marker counts the lines the budget removed from the selected
  slice only. With \<open>first = 3\<close>, \<open>last = 3\<close> over three lines and budget 5 the two
  slices overlap and the marker says \<open>-2\<close>: \<open>totalSkipped\<close> subtracts the counts
  \<open>countFirst\<close> and \<open>countLast\<close>, not the lengths of the slices.
\<close>

theorem marker_count_counterexample:
  "stringArrayApplyLimits [''aa'', ''bb'', ''cc'']
     \<lparr>maxTotalLength = 3, countFirst = Some 2, countLast = None\<rparr> =
     [''aa'', ''[1 messages trimmed]''] \<and>
   stringArrayApplyLimits [''a'', ''b'', ''c'']
     \<lparr>maxTotalLength = 5, countFirst = Some 3, countLast = Some 3\<rparr> =
     [''a'', ''b'', ''[-2 messages skipped]'', ''a'', ''b'', ''c'']"
  by code_simp

text \<open>
  Claim C2, amended. With \<open>N\<close> lines: with no count the result is a suffix of the input
  and the marker, present when lines were dropped, counts exactly the dropped lines; with
  only \<open>first = F > 0\<close> (only \<open>last = L > 0\<close>) the result is a prefix (suffix) of the
  input of at most \<open>min F N\<close> (\<open>min L N\<close>) lines and the marker counts the lines of that
  slice that were dropped; with both counts positive and \<open>F + L \<le> N\<close> the result is
  either both slices unchanged, or a prefix of \<open>a\<close> lines, the marker and a suffix of
  \<open>c\<close> lines, where the marker counts \<open>N - a - c\<close>, the number of source lines that
  are not in the result. Overlapping slices (\<open>F + L > N\<close>) are left out.
\<close>

theorem marker_counts:
  "(truthyNumber (countFirst opts) = None \<and> truthyNumber (countLast opts) = None \<longrightarrow>
      (\<exists>k \<le> length strings.
         stringArrayApplyLimits strings opts =
           (if 0 < k then [markerTrimmed (int k)] else []) @ drop k strings)) \<and>
   (countFirst opts = Some F \<and> 0 < F \<and> truthyNumber (countLast opts) = None \<longrightarrow>
      (\<exists>k \<le> min (nat F) (length strings).
         stringArrayApplyLimits strings opts =
           take k strings @
           (if k < min (nat F) (length strings)
            then [markerTrimmed (int (min (nat F) (length strings) - k))] else []))) \<and>
   (truthyNumber (countFirst opts) = None \<and> countLast opts = Some L \<and> 0 < L \<longrightarrow>
      (\<exists>k \<le> min (nat L) (length strings).
         stringArrayApplyLimits strings opts =
           (if k < min (nat L) (length strings)
            then [markerTrimmed (int (min (nat L) (length strings) - k))] else []) @
           drop (length strings - k) strings)) \<and>
   (countFirst opts = Some F \<and> countLast opts = Some L \<and> 0 < F \<and> 0 < L \<and>
    F + L \<le> int (length strings) \<longrightarrow>
      stringArrayApplyLimits strings opts =
        take (nat F) strings @ drop (length strings - nat L) strings \<or>
      (\<exists>a \<le> nat F. \<exists>c \<le> nat L.
         stringArrayApplyLimits strings opts =
           take a strings @ [markerSkipped (int (length strings - a - c))] @
           drop (length strings - c) strings))"
proof (intro conjI impI)
  let ?b = "Num (of_int (maxTotalLength opts))"
  let ?N = "length strings"
  {
    assume h: "truthyNumber (countFirst opts) = None \<and> truthyNumber (countLast opts) = None"
    obtain k where k: "k \<le> ?N" "stringArrayTrimToLength strings ?b True = drop k strings"
      using trim_backward_drop by blast
    then have "stringArrayApplyLimits strings opts =
           (if 0 < k then [markerTrimmed (int k)] else []) @ drop k strings"
      using h by (auto simp: stringArrayApplyLimits_def Let_def)
    with k(1) show "\<exists>k \<le> ?N. stringArrayApplyLimits strings opts =
           (if 0 < k then [markerTrimmed (int k)] else []) @ drop k strings"
      by blast
  }
  {
    assume h: "countFirst opts = Some F \<and> 0 < F \<and> truthyNumber (countLast opts) = None"
    define M where "M = min (nat F) ?N"
    have s: "jsSlice strings 0 (Some F) = take (nat F) strings" using h by (simp add: jsSlice_first)
    have lx: "length (take (nat F) strings) = M" by (simp add: M_def min.commute)
    obtain k where k: "k \<le> length (take (nat F) strings)"
      "stringArrayTrimToLength (take (nat F) strings) ?b False = take k (take (nat F) strings)"
      using trim_forward_take by blast
    from k(1) have kM: "k \<le> M" unfolding lx .
    then have kF: "k \<le> nat F" "k \<le> ?N" by (simp_all add: M_def)
    have tk: "take k (take (nat F) strings) = take k strings" using kF by (simp add: min_absorb1)
    have len: "length (take k strings) = k" using kF by simp
    have tr: "stringArrayTrimToLength (take (nat F) strings) ?b False = take k strings"
      using k(2) tk by (simp only:)
    have "stringArrayApplyLimits strings opts =
           take k strings @ (if k < M then [markerTrimmed (int (M - k))] else [])"
      using h kM
      by (simp add: stringArrayApplyLimits_def Let_def truthyNumber_Some s tr lx len
          of_nat_diff del: length_take)
    with kM show "\<exists>k \<le> min (nat F) ?N. stringArrayApplyLimits strings opts =
           take k strings @
           (if k < min (nat F) ?N then [markerTrimmed (int (min (nat F) ?N - k))] else [])"
      unfolding M_def by blast
  }
  {
    assume h: "truthyNumber (countFirst opts) = None \<and> countLast opts = Some L \<and> 0 < L"
    define M where "M = min (nat L) ?N"
    let ?xs = "drop (?N - nat L) strings"
    have s: "jsSlice strings (- L) None = ?xs" using h by (simp add: jsSlice_last)
    have lx: "length ?xs = M" by (simp add: M_def min_def)
    obtain j where j: "j \<le> length ?xs" "stringArrayTrimToLength ?xs ?b True = drop j ?xs"
      using trim_backward_drop by blast
    define k where "k = M - j"
    have jM: "j \<le> M" using j(1) unfolding lx .
    have kM: "k \<le> M" by (simp add: k_def)
    have MN: "M \<le> ?N" by (simp add: M_def)
    have jk: "j = M - k" using jM by (simp add: k_def)
    have "?N - nat L = ?N - M" by (simp add: M_def min_def)
    moreover have "j + (?N - M) = ?N - k" using jM MN by (simp add: k_def)
    ultimately have d: "drop j ?xs = drop (?N - k) strings"
      by (simp only: drop_drop)
    have ld: "length (drop (?N - k) strings) = k" using kM MN by simp
    have tr: "stringArrayTrimToLength ?xs ?b True = drop (?N - k) strings"
      using j(2) d by (simp only:)
    have "stringArrayApplyLimits strings opts =
           (if k < M then [markerTrimmed (int (M - k))] else []) @ drop (?N - k) strings"
      using h kM
      by (simp add: stringArrayApplyLimits_def Let_def truthyNumber_Some s tr lx ld
          of_nat_diff del: length_drop)
    with kM show "\<exists>k \<le> min (nat L) ?N. stringArrayApplyLimits strings opts =
           (if k < min (nat L) ?N then [markerTrimmed (int (min (nat L) ?N - k))] else []) @
           drop (?N - k) strings"
      unfolding M_def by blast
  }
  {
    assume h: "countFirst opts = Some F \<and> countLast opts = Some L \<and> 0 < F \<and> 0 < L \<and>
      F + L \<le> int ?N"
    let ?xs = "take (nat F) strings"
    let ?ys = "drop (?N - nat L) strings"
    have FL: "nat F + nat L \<le> ?N" using h by linarith
    have s: "jsSlice strings 0 (Some F) = ?xs" "jsSlice strings (- L) None = ?ys"
      using h by (simp_all add: jsSlice_first jsSlice_last)
    have lx: "length ?xs = nat F" and ly: "length ?ys = nat L" using FL by simp_all
    define lf where "lf = stringArrayTotalLength ?xs"
    define ll where "ll = stringArrayTotalLength ?ys"
    define mf where "mf = jsFloor (jsTimes ?b (jsDivide (Num (of_nat lf)) (Num (of_nat (lf + ll)))))"
    define ml where "ml = jsMinus ?b mf"
    show "stringArrayApplyLimits strings opts = ?xs @ ?ys \<or>
      (\<exists>a \<le> nat F. \<exists>c \<le> nat L.
         stringArrayApplyLimits strings opts =
           take a strings @ [markerSkipped (int (?N - a - c))] @ drop (?N - c) strings)"
    proof (cases "jsGreater (Num (of_nat (lf + ll))) ?b")
      case False
      then have "stringArrayApplyLimits strings opts = ?xs @ ?ys"
        using h by (simp add: stringArrayApplyLimits_def Let_def truthyNumber_Some s lf_def ll_def)
      then show ?thesis ..
    next
      case True
      obtain a where a: "a \<le> length ?xs" "stringArrayTrimToLength ?xs mf False = take a ?xs"
        using trim_forward_take by blast
      obtain j where j: "j \<le> length ?ys" "stringArrayTrimToLength ?ys ml True = drop j ?ys"
        using trim_backward_drop by blast
      define c where "c = nat L - j"
      have aF: "a \<le> nat F" using a(1) lx by simp
      have cL: "c \<le> nat L" by (simp add: c_def)
      have jL: "j \<le> nat L" using j(1) ly by simp
      have ta: "take a ?xs = take a strings" using aF by (simp add: min_absorb1)
      have "j + (?N - nat L) = ?N - c" using jL FL by (simp add: c_def)
      then have dj: "drop j ?ys = drop (?N - c) strings" by (simp only: drop_drop)
      have la: "length (take a strings) = a" using aF FL by simp
      have lc: "length (drop (?N - c) strings) = c" using cL FL by simp
      have tra: "stringArrayTrimToLength ?xs mf False = take a strings"
        using a(2) ta by (simp only:)
      have trc: "stringArrayTrimToLength ?ys ml True = drop (?N - c) strings"
        using j(2) dj by (simp only:)
      have cnt: "int ?N - F - L + (int (nat F) - int a) + (int (nat L) - int c) = int (?N - a - c)"
        using h aF cL FL by simp
      have e: "stringArrayApplyLimits strings opts =
          stringArrayTrimToLength ?xs mf False @
          [markerSkipped (int ?N - F - L +
             (int (length ?xs) - int (length (stringArrayTrimToLength ?xs mf False))) +
             (int (length ?ys) - int (length (stringArrayTrimToLength ?ys ml True))))] @
          stringArrayTrimToLength ?ys ml True"
        using h True unfolding mf_def ml_def lf_def ll_def
        by (simp add: stringArrayApplyLimits_def Let_def truthyNumber_Some s
            del: length_take length_drop)
      have "stringArrayApplyLimits strings opts =
           take a strings @ [markerSkipped (int (?N - a - c))] @ drop (?N - c) strings"
        unfolding e tra trc la lc lx ly cnt ..
      with aF cL show ?thesis by blast
    qed
  }
qed

theorem marker_counts_witness:
  "(\<exists>k \<le> length [''a'', ''bb'', ''cc'', ''d''].
      stringArrayApplyLimits [''a'', ''bb'', ''cc'', ''d'']
        \<lparr>maxTotalLength = 3, countFirst = None, countLast = None\<rparr> =
      (if 0 < k then [markerTrimmed (int k)] else []) @ drop k [''a'', ''bb'', ''cc'', ''d'']) \<and>
   (\<exists>k \<le> min (nat 2) (length [''aa'', ''bb'', ''cc'']).
      stringArrayApplyLimits [''aa'', ''bb'', ''cc'']
        \<lparr>maxTotalLength = 3, countFirst = Some 2, countLast = None\<rparr> =
      take k [''aa'', ''bb'', ''cc''] @
      (if k < min (nat 2) (length [''aa'', ''bb'', ''cc''])
       then [markerTrimmed (int (min (nat 2) (length [''aa'', ''bb'', ''cc'']) - k))] else [])) \<and>
   (\<exists>k \<le> min (nat 2) (length [''aa'', ''bb'', ''cc'']).
      stringArrayApplyLimits [''aa'', ''bb'', ''cc'']
        \<lparr>maxTotalLength = 3, countFirst = None, countLast = Some 2\<rparr> =
      (if k < min (nat 2) (length [''aa'', ''bb'', ''cc''])
       then [markerTrimmed (int (min (nat 2) (length [''aa'', ''bb'', ''cc'']) - k))] else []) @
      drop (length [''aa'', ''bb'', ''cc''] - k) [''aa'', ''bb'', ''cc'']) \<and>
   (stringArrayApplyLimits [''aaaaa'', ''bbbbb'', ''ccccc'', ''ddddd'', ''eeeee'']
      \<lparr>maxTotalLength = 12, countFirst = Some 2, countLast = Some 2\<rparr> =
      take (nat 2) [''aaaaa'', ''bbbbb'', ''ccccc'', ''ddddd'', ''eeeee''] @
      drop (length [''aaaaa'', ''bbbbb'', ''ccccc'', ''ddddd'', ''eeeee''] - nat 2)
        [''aaaaa'', ''bbbbb'', ''ccccc'', ''ddddd'', ''eeeee''] \<or>
    (\<exists>a \<le> nat 2. \<exists>c \<le> nat 2.
      stringArrayApplyLimits [''aaaaa'', ''bbbbb'', ''ccccc'', ''ddddd'', ''eeeee'']
        \<lparr>maxTotalLength = 12, countFirst = Some 2, countLast = Some 2\<rparr> =
      take a [''aaaaa'', ''bbbbb'', ''ccccc'', ''ddddd'', ''eeeee''] @
      [markerSkipped
         (int (length [''aaaaa'', ''bbbbb'', ''ccccc'', ''ddddd'', ''eeeee''] - a - c))] @
      drop (length [''aaaaa'', ''bbbbb'', ''ccccc'', ''ddddd'', ''eeeee''] - c)
        [''aaaaa'', ''bbbbb'', ''ccccc'', ''ddddd'', ''eeeee''])) \<and>
   stringArrayApplyLimits [''aaaaa'', ''bbbbb'', ''ccccc'', ''ddddd'', ''eeeee'']
      \<lparr>maxTotalLength = 12, countFirst = Some 2, countLast = Some 2\<rparr> =
      [''aaaaa'', ''[3 messages skipped]'', ''eeeee'']"
  (is "?A \<and> ?B \<and> ?C \<and> ?D \<and> ?E")
proof -
  have t: "truthyNumber None = None" by (simp add: truthyNumber_def)
  have a: ?A
    using marker_counts
      [of "\<lparr>maxTotalLength = 3, countFirst = None, countLast = None\<rparr>"
          "[''a'', ''bb'', ''cc'', ''d'']" 1 1] t
    by (simp only: StringArrayApplyLimitsOptions.simps)
  have b: ?B
    using marker_counts
      [of "\<lparr>maxTotalLength = 3, countFirst = Some 2, countLast = None\<rparr>"
          "[''aa'', ''bb'', ''cc'']" 2 1] t
    by (simp only: StringArrayApplyLimitsOptions.simps zero_less_numeral simp_thms)
  have c: ?C
    using marker_counts
      [of "\<lparr>maxTotalLength = 3, countFirst = None, countLast = Some 2\<rparr>"
          "[''aa'', ''bb'', ''cc'']" 1 2] t
    by (simp only: StringArrayApplyLimitsOptions.simps zero_less_numeral simp_thms)
  have "(2::int) + 2 \<le> int (length [''aaaaa'', ''bbbbb'', ''ccccc'', ''ddddd'', ''eeeee''])"
    by simp
  then have d: ?D
    using marker_counts
      [of "\<lparr>maxTotalLength = 12, countFirst = Some 2, countLast = Some 2\<rparr>"
          "[''aaaaa'', ''bbbbb'', ''ccccc'', ''ddddd'', ''eeeee'']" 2 2]
    by (simp only: StringArrayApplyLimitsOptions.simps zero_less_numeral simp_thms)
  have e: ?E by code_simp
  from a b c d e show ?thesis by blast
qed

text \<open>
  Claim C5 (proportional split) as stated fails: the first budget is the floor of a double
  product, not of the exact quotient. With budget 22 and slices of 30 and 14 characters the
  exact value is \<open>22 * 30 / 44 = 15\<close>, but \<open>30 / 44\<close> rounds down and the product is just
  below 15, so the first budget is 14 and the first line, 15 characters long, is dropped.
\<close>

theorem proportional_split_not_exact:
  "stringArrayApplyLimits
     [''aaaaaaaaaaaaaaa'', ''bbbbbbbbbbbbbbb'', ''ccccccc'', ''ddddddd'']
     \<lparr>maxTotalLength = 22, countFirst = Some 2, countLast = Some 2\<rparr> =
     [''[3 messages skipped]'', ''ddddddd''] \<and>
   stringArrayTotalLength [''aaaaaaaaaaaaaaa'', ''bbbbbbbbbbbbbbb''] = 30 \<and>
   stringArrayTotalLength [''ccccccc'', ''ddddddd''] = 14 \<and>
   (22 * 30) div (30 + 14) = (15 :: int) \<and>
   jsFloor (jsTimes (Num 22) (jsDivide (Num 30) (Num 44))) = Num 14"
  by code_simp

text \<open>
  Claim C5, amended. When both counts are given, the budget \<open>b\<close> is positive (at most
  \<open>2 ^ 53\<close>, so that a double holds it) and the two slices together are longer than
  \<open>b\<close>: the first budget \<open>bf\<close> is the floor of the double product of \<open>b\<close> and the
  double quotient \<open>lenFirst / (lenFirst + lenLast)\<close>, and lies between 0 and \<open>b\<close>; when
  \<open>b\<close> times the total length is at most \<open>2 ^ 51\<close> it is the exact floor or one less,
  and the exact floor unless the total length divides \<open>b * lenFirst\<close>, so it is 0 when
  \<open>b * lenFirst\<close> is less than the total length; the last budget is \<open>b - bf\<close>; the
  result is a leading run of the first slice, the marker and a trailing run of the last
  slice; the leading run fits \<open>bf\<close> and is maximal; the trailing run fits \<open>b - bf\<close> and is
  maximal provided the last line of the last slice fits \<open>b - bf\<close> (the other case is the
  defect of claim C1).
\<close>

theorem proportional_split:
  assumes "countFirst opts = Some cf" and "cf \<noteq> 0"
    and "countLast opts = Some cl" and "cl \<noteq> 0"
    and "0 < maxTotalLength opts" and "maxTotalLength opts \<le> 2 ^ 53"
    and "maxTotalLength opts <
         int (stringArrayTotalLength (jsSlice strings 0 (Some cf)) +
              stringArrayTotalLength (jsSlice strings (- cl) None))"
  shows
    "let b = maxTotalLength opts;
         firstN = jsSlice strings 0 (Some cf);
         lastN = jsSlice strings (- cl) None;
         lf = stringArrayTotalLength firstN;
         tl = lf + stringArrayTotalLength lastN;
         bf = \<lfloor>fl (of_int b * fl (of_nat lf / of_nat tl))\<rfloor>;
         bl = b - bf
     in 0 \<le> bf \<and> bf \<le> b \<and>
        (b * int tl \<le> 2 ^ 51 \<longrightarrow>
           (b * int lf) div int tl - 1 \<le> bf \<and> bf \<le> (b * int lf) div int tl \<and>
           (\<not> int tl dvd b * int lf \<longrightarrow> bf = (b * int lf) div int tl) \<and>
           (b * int lf < int tl \<longrightarrow> bf = 0)) \<and>
        (\<exists>a c. a \<le> length firstN \<and> c \<le> length lastN \<and>
           stringArrayApplyLimits strings opts =
             take a firstN @
             [markerSkipped (int (length strings) - cf - cl +
                (int (length firstN) - int a) + int c)] @
             drop c lastN \<and>
           int (stringArrayTotalLength (take a firstN)) \<le> bf \<and>
           (a < length firstN \<longrightarrow> bf < int (stringArrayTotalLength (take (a + 1) firstN))) \<and>
           (lastN = [] \<or> int (length (last lastN)) \<le> bl \<longrightarrow>
              int (stringArrayTotalLength (drop c lastN)) \<le> bl \<and>
              (0 < c \<longrightarrow> bl < int (stringArrayTotalLength (drop (c - 1) lastN)))))"
proof -
  define b where "b = maxTotalLength opts"
  define firstN where "firstN = jsSlice strings 0 (Some cf)"
  define lastN where "lastN = jsSlice strings (- cl) None"
  define lf where "lf = stringArrayTotalLength firstN"
  define tl where "tl = lf + stringArrayTotalLength lastN"
  define bf where "bf = \<lfloor>fl (of_int b * fl (of_nat lf / of_nat tl))\<rfloor>"
  define bl where "bl = b - bf"
  have b: "0 < b" "b \<le> 2 ^ 53" using assms(5,6) by (simp_all add: b_def)
  have gt: "b < int tl" using assms(7) by (simp add: b_def tl_def lf_def firstN_def lastN_def)
  with b(1) have tl: "0 < tl" by simp
  have lftl: "lf \<le> tl" by (simp add: tl_def)
  have bf0: "0 \<le> bf" and bfb: "bf \<le> b"
    unfolding bf_def using split_bounds [OF b lftl tl] by simp_all
  have bl0: "0 \<le> bl" "bl \<le> 2 ^ 53" using bf0 bfb b by (simp_all add: bl_def)
  have close: "(b * int lf) div int tl - 1 \<le> bf \<and> bf \<le> (b * int lf) div int tl \<and>
           (\<not> int tl dvd b * int lf \<longrightarrow> bf = (b * int lf) div int tl) \<and>
           (b * int lf < int tl \<longrightarrow> bf = 0)"
    if c: "b * int tl \<le> 2 ^ 51"
  proof -
    note sc = split_close [OF b(1) lftl tl c, folded bf_def]
    have "bf = 0" if "b * int lf < int tl"
    proof -
      have "0 \<le> b * int lf" using b(1) by simp
      with that have "(b * int lf) div int tl = 0" by simp
      with sc(2) bf0 show ?thesis by simp
    qed
    with sc show ?thesis by blast
  qed
  have mf: "jsFloor (jsTimes (Num (of_int b))
              (jsDivide (Num (of_nat lf)) (Num (of_nat tl)))) = Num (of_int bf)"
    using tl by (simp add: jsFloor_def jsTimes_def jsDivide_def bf_def)
  have "\<bar>b - bf\<bar> \<le> 2 ^ 53" using bl0 by (simp add: bl_def)
  from fl_of_int [OF this]
  have ml: "jsMinus (Num (of_int b)) (Num (of_int bf)) = Num (of_int bl)"
    by (simp add: jsMinus_def bl_def)
  obtain a where a: "a \<le> length firstN"
    "stringArrayTrimToLength firstN (Num (of_int bf)) False = take a firstN"
    "0 < a \<longrightarrow> of_nat (sum_list (map length (take a firstN))) \<le> (of_int bf :: rat)"
    "a < length firstN \<longrightarrow> (of_int bf :: rat) < of_nat (sum_list (map length (take (a + 1) firstN)))"
    using trim_first_spec [of firstN "of_int bf"] by blast
  obtain c where c: "c \<le> length lastN"
    "stringArrayTrimToLength lastN (Num (of_int bl)) True = drop c lastN"
    "(c = 0 \<and> (lastN = [] \<or> (of_int bl :: rat) < of_nat (length (last lastN)))) \<or>
      (c < length lastN \<and> of_nat (sum_list (map length (drop c lastN))) \<le> (of_int bl :: rat) \<and>
       (0 < c \<longrightarrow> (of_int bl :: rat) < of_nat (sum_list (map length (drop (c - 1) lastN)))))"
    using trim_last_spec [of lastN "of_int bl"] by blast
  have a1: "int (stringArrayTotalLength (take a firstN)) \<le> bf"
    using a(3) bf0 by (cases "a = 0") (simp_all add: stringArrayTotalLength_sum rat_of_nat_le_of_int)
  have a2: "a < length firstN \<longrightarrow> bf < int (stringArrayTotalLength (take (a + 1) firstN))"
    using a(4) by (simp add: stringArrayTotalLength_sum rat_of_int_less_of_nat)
  have c1: "int (stringArrayTotalLength (drop c lastN)) \<le> bl \<and>
              (0 < c \<longrightarrow> bl < int (stringArrayTotalLength (drop (c - 1) lastN)))"
    if "lastN = [] \<or> int (length (last lastN)) \<le> bl"
  proof (cases "lastN = []")
    case True
    then show ?thesis using c(1) bl0 by (simp add: stringArrayTotalLength_sum)
  next
    case False
    with that have "\<not> (of_int bl :: rat) < of_nat (length (last lastN))"
      by (simp add: rat_of_int_less_of_nat)
    with c(3) False show ?thesis
      by (simp add: stringArrayTotalLength_sum rat_of_nat_le_of_int rat_of_int_less_of_nat)
  qed
  have t: "truthyNumber (countFirst opts) = Some cf" "truthyNumber (countLast opts) = Some cl"
    using assms(1-4) by (simp_all add: truthyNumber_def)
  have g: "jsGreater (Num (of_nat tl)) (Num (of_int b))"
    using gt by (simp add: rat_of_int_less_of_nat)
  have lc: "int (length lastN) - int (length (drop c lastN)) = int c"
    using c(1) by simp
  have e: "stringArrayApplyLimits strings opts =
      take a firstN @
      [markerSkipped (int (length strings) - cf - cl +
         (int (length firstN) - int a) + int c)] @
      drop c lastN"
  proof -
    have "stringArrayApplyLimits strings opts =
      stringArrayTrimToLength firstN (Num (of_int bf)) False @
      [markerSkipped (int (length strings) - cf - cl +
         (int (length firstN) -
          int (length (stringArrayTrimToLength firstN (Num (of_int bf)) False))) +
         (int (length lastN) -
          int (length (stringArrayTrimToLength lastN (Num (of_int bl)) True))))] @
      stringArrayTrimToLength lastN (Num (of_int bl)) True"
      using g mf ml unfolding firstN_def lastN_def b_def lf_def tl_def
      by (simp add: stringArrayApplyLimits_def t Let_def del: length_take length_drop)
    also have "length (take a firstN) = a" using a(1) by simp
    ultimately show ?thesis unfolding a(2) c(2) lc by (simp only:)
  qed
  show ?thesis
    unfolding Let_def b_def [symmetric] firstN_def [symmetric] lastN_def [symmetric]
      lf_def [symmetric] tl_def [symmetric] bf_def [symmetric] bl_def [symmetric]
    using bf0 bfb close a(1) c(1) e a1 a2 c1 by blast
qed

theorem proportional_split_witness:
  "maxTotalLength \<lparr>maxTotalLength = 12, countFirst = Some 2, countLast = Some 2\<rparr> <
     int (stringArrayTotalLength (jsSlice [''aaaaa'', ''bbbbb'', ''ccccc'', ''ddddd'', ''eeeee''] 0 (Some 2)) +
          stringArrayTotalLength (jsSlice [''aaaaa'', ''bbbbb'', ''ccccc'', ''ddddd'', ''eeeee''] (- 2) None)) \<and>
   stringArrayApplyLimits [''aaaaa'', ''bbbbb'', ''ccccc'', ''ddddd'', ''eeeee''] \<lparr>maxTotalLength = 12, countFirst = Some 2, countLast = Some 2\<rparr> =
     [''aaaaa'', ''[3 messages skipped]'', ''eeeee''] \<and>
   (let b = maxTotalLength \<lparr>maxTotalLength = 12, countFirst = Some 2, countLast = Some 2\<rparr>;
         firstN = jsSlice [''aaaaa'', ''bbbbb'', ''ccccc'', ''ddddd'', ''eeeee''] 0 (Some 2);
         lastN = jsSlice [''aaaaa'', ''bbbbb'', ''ccccc'', ''ddddd'', ''eeeee''] (- 2) None;
         lf = stringArrayTotalLength firstN;
         tl = lf + stringArrayTotalLength lastN;
         bf = \<lfloor>fl (of_int b * fl (of_nat lf / of_nat tl))\<rfloor>;
         bl = b - bf
     in 0 \<le> bf \<and> bf \<le> b \<and>
        (b * int tl \<le> 2 ^ 51 \<longrightarrow>
           (b * int lf) div int tl - 1 \<le> bf \<and> bf \<le> (b * int lf) div int tl \<and>
           (\<not> int tl dvd b * int lf \<longrightarrow> bf = (b * int lf) div int tl) \<and>
           (b * int lf < int tl \<longrightarrow> bf = 0)) \<and>
        (\<exists>a c. a \<le> length firstN \<and> c \<le> length lastN \<and>
           stringArrayApplyLimits [''aaaaa'', ''bbbbb'', ''ccccc'', ''ddddd'', ''eeeee''] \<lparr>maxTotalLength = 12, countFirst = Some 2, countLast = Some 2\<rparr> =
             take a firstN @
             [markerSkipped (int (length [''aaaaa'', ''bbbbb'', ''ccccc'', ''ddddd'', ''eeeee'']) - 2 - 2 +
                (int (length firstN) - int a) + int c)] @
             drop c lastN \<and>
           int (stringArrayTotalLength (take a firstN)) \<le> bf \<and>
           (a < length firstN \<longrightarrow> bf < int (stringArrayTotalLength (take (a + 1) firstN))) \<and>
           (lastN = [] \<or> int (length (last lastN)) \<le> bl \<longrightarrow>
              int (stringArrayTotalLength (drop c lastN)) \<le> bl \<and>
              (0 < c \<longrightarrow> bl < int (stringArrayTotalLength (drop (c - 1) lastN))))))"
  (is "?H \<and> ?E \<and> ?C")
proof -
  let ?S = "[''aaaaa'', ''bbbbb'', ''ccccc'', ''ddddd'', ''eeeee'']"
  let ?O = "\<lparr>maxTotalLength = 12, countFirst = Some 2, countLast = Some 2\<rparr>"
  have h: ?H by (simp add: jsSlice_def relativeIndex_def stringArrayTotalLength_def)
  have e: ?E by code_simp
  have "countFirst ?O = Some 2" "(2::int) \<noteq> 0" "countLast ?O = Some 2"
    "0 < maxTotalLength ?O" "maxTotalLength ?O \<le> 2 ^ 53"
    by simp_all
  from proportional_split [OF this(1,2,3,2,4,5) h] have ?C .
  with h e show ?thesis by blast
qed

section \<open>Properties of the filters\<close>

lemma some_False: "some p xs = Inr False \<Longrightarrow> x \<in> set xs \<Longrightarrow> p x = Inr False"
  by (induction xs) (auto split: sum.splits if_splits)

lemma filterE_member: "filterE p xs = Inr ys \<Longrightarrow> x \<in> set ys \<Longrightarrow> p x = Inr True \<and> x \<in> set xs"
  by (induction xs arbitrary: ys) (auto split: sum.splits if_splits)

lemma filterE_all_False: "\<forall>x \<in> set xs. p x = Inr False \<Longrightarrow> filterE p xs = Inr []"
  by (induction xs) auto

lemma filterE_all_True: "\<forall>x \<in> set xs. p x = Inr True \<Longrightarrow> filterE p xs = Inr xs"
  by (induction xs) auto

lemma console_excluded:
  assumes "filterE (createConsoleFilter host exc False) xs = Inr out"
    and "flt \<in> set exc" and "consoleClause host m flt = Inr True"
  shows "m \<notin> set out"
proof
  assume "m \<in> set out"
  with assms(1) have "createConsoleFilter host exc False m = Inr True"
    using filterE_member by fastforce
  then have "some (consoleClause host m) exc = Inr False"
    using assms(2) by (auto simp: createConsoleFilter_def split: if_splits sum.splits)
  from some_False [OF this assms(2)] have "consoleClause host m flt = Inr False" .
  with assms(3) show False by simp
qed

lemma network_excluded:
  assumes "filterE (createNetworkFilter host exc False url) xs = Inr out"
    and "flt \<in> set exc" and "networkClause host url e flt = Inr True"
  shows "e \<notin> set out"
proof
  assume "e \<in> set out"
  with assms(1) have "createNetworkFilter host exc False url e = Inr True"
    using filterE_member by fastforce
  then have "some (networkClause host url e) exc = Inr False"
    using assms(2) by (auto simp: createNetworkFilter_def split: if_splits sum.splits)
  from some_False [OF this assms(2)] have "networkClause host url e flt = Inr False" .
  with assms(3) show False by simp
qed


text \<open>
  Claim C3 (exclude precedence). In both tools, when \<open>exclude\<close> is given and the query
  returns, a record that matches at least one clause of \<open>exclude\<close> (the clause's callback
  returns \<open>true\<close> for it) is not among the filtered records, whatever \<open>include\<close> is.
\<close>

theorem exclude_overrides_include:
  "(pExclude cp = Some cexc \<longrightarrow> consoleFilterMessages host cp messages = Inr cout \<longrightarrow>
      cflt \<in> set cexc \<longrightarrow> consoleClause host m cflt = Inr True \<longrightarrow> m \<notin> set cout) \<and>
   (pExclude np = Some nexc \<longrightarrow> networkFilterEntries host url np entries = Inr nout \<longrightarrow>
      nflt \<in> set nexc \<longrightarrow> networkClause host url e nflt = Inr True \<longrightarrow> e \<notin> set nout)"
proof (intro conjI impI)
  assume "pExclude cp = Some cexc" "consoleFilterMessages host cp messages = Inr cout"
    "cflt \<in> set cexc" "consoleClause host m cflt = Inr True"
  then show "m \<notin> set cout"
    by (auto simp: consoleFilterMessages_def split: sum.splits option.splits
        dest: console_excluded)
next
  assume "pExclude np = Some nexc" "networkFilterEntries host url np entries = Inr nout"
    "nflt \<in> set nexc" "networkClause host url e nflt = Inr True"
  then show "e \<notin> set nout"
    by (auto simp: networkFilterEntries_def split: sum.splits option.splits
        dest: network_excluded)
qed


theorem exclude_overrides_include_witness:
  "consoleFilterMessages
     \<lparr>regExp = (\<lambda>p. None), urlHostname = (\<lambda>u. None), toUpperCase = (\<lambda>s. s)\<rparr>
     \<lparr>pInclude = Some [\<lparr>cTypes = None, cPattern = None\<rparr>],
      pExclude = Some [\<lparr>cTypes = Some [error], cPattern = None\<rparr>],
      pFirst = None, pLast = None\<rparr>
     [\<lparr>msgType = ''error'', msgText = ''bad'', msgToString = ''[ERROR] bad''\<rparr>,
      \<lparr>msgType = ''log'', msgText = ''hi'', msgToString = ''[LOG] hi''\<rparr>] =
     Inr [\<lparr>msgType = ''log'', msgText = ''hi'', msgToString = ''[LOG] hi''\<rparr>] \<and>
   \<lparr>msgType = ''error'', msgText = ''bad'', msgToString = ''[ERROR] bad''\<rparr> \<notin>
     set [\<lparr>msgType = ''log'', msgText = ''hi'', msgToString = ''[LOG] hi''\<rparr>] \<and>
   networkFilterEntries
     \<lparr>regExp = (\<lambda>p. None), urlHostname = (\<lambda>u. None), toUpperCase = (\<lambda>s. s)\<rparr>
     ''http://a/''
     \<lparr>pInclude = Some [\<lparr>nStatuses = None, nTypes = None, nPattern = None\<rparr>],
      pExclude = Some [\<lparr>nStatuses = Some [(400, 499)], nTypes = None, nPattern = None\<rparr>],
      pFirst = None, pLast = None\<rparr>
     [(\<lparr>reqUrl = ''http://a/x'', reqMethod = ''GET''\<rparr>,
       Some \<lparr>resStatus = 404, resStatusText = ''Not Found''\<rparr>),
      (\<lparr>reqUrl = ''http://a/y'', reqMethod = ''GET''\<rparr>,
       Some \<lparr>resStatus = 200, resStatusText = ''OK''\<rparr>)] =
     Inr [(\<lparr>reqUrl = ''http://a/y'', reqMethod = ''GET''\<rparr>,
           Some \<lparr>resStatus = 200, resStatusText = ''OK''\<rparr>)] \<and>
   (\<lparr>reqUrl = ''http://a/x'', reqMethod = ''GET''\<rparr>,
    Some \<lparr>resStatus = 404, resStatusText = ''Not Found''\<rparr>) \<notin>
     set [(\<lparr>reqUrl = ''http://a/y'', reqMethod = ''GET''\<rparr>,
           Some \<lparr>resStatus = 200, resStatusText = ''OK''\<rparr>)]"
  (is "consoleFilterMessages ?H ?cp [?m, ?m2] = Inr ?cout \<and> ?m \<notin> set ?cout \<and>
       networkFilterEntries ?H ?url ?np [?e, ?e2] = Inr ?nout \<and> ?e \<notin> set ?nout")
proof -
  let ?cflt = "\<lparr>cTypes = Some [error], cPattern = None\<rparr>"
  let ?nflt = "\<lparr>nStatuses = Some [(400, 499)], nTypes = None, nPattern = None\<rparr>"
  have c1: "pExclude ?cp = Some [?cflt]" by simp
  have c2: "consoleFilterMessages ?H ?cp [?m, ?m2] = Inr ?cout"
    by (simp add: consoleFilterMessages_def createConsoleFilter_def consoleClause_def
        getConsoleMessageType_def patternMatches_def truthyString_def)
  have c3: "?cflt \<in> set [?cflt]" by simp
  have c4: "consoleClause ?H ?m ?cflt = Inr True"
    by (simp add: consoleClause_def getConsoleMessageType_def patternMatches_def
        truthyString_def)
  have n1: "pExclude ?np = Some [?nflt]" by simp
  have n2: "networkFilterEntries ?H ?url ?np [?e, ?e2] = Inr ?nout"
    by (simp add: networkFilterEntries_def createNetworkFilter_def patternMatches_def
        truthyString_def)
  have n3: "?nflt \<in> set [?nflt]" by simp
  have n4: "networkClause ?H ?url ?e ?nflt = Inr True"
    by (simp add: patternMatches_def truthyString_def)
  from exclude_overrides_include
    [of ?cp "[?cflt]" ?H "[?m, ?m2]" ?cout ?cflt ?m ?np "[?nflt]" ?url "[?e, ?e2]" ?nout ?nflt ?e]
    c1 c2 c3 c4 n1 n2 n3 n4
  show ?thesis by blast
qed

text \<open>
  Claim C4 as stated fails: the status criterion is guarded by \<open>&& response\<close>, so for a
  request without a response it is skipped, and a clause that only has a status range
  matches the request, which then passes an \<open>include\<close> made of that clause.
\<close>

theorem status_clause_matches_without_response:
  "networkClause \<lparr>regExp = (\<lambda>p. None), urlHostname = (\<lambda>u. None), toUpperCase = (\<lambda>s. s)\<rparr>
     ''http://a/'' (\<lparr>reqUrl = ''http://a/x'', reqMethod = ''GET''\<rparr>, None)
     \<lparr>nStatuses = Some [(200, 299)], nTypes = None, nPattern = None\<rparr> = Inr True \<and>
   networkFilterEntries \<lparr>regExp = (\<lambda>p. None), urlHostname = (\<lambda>u. None), toUpperCase = (\<lambda>s. s)\<rparr>
     ''http://a/''
     \<lparr>pInclude = Some [\<lparr>nStatuses = Some [(200, 299)], nTypes = None, nPattern = None\<rparr>],
      pExclude = None, pFirst = None, pLast = None\<rparr>
     [(\<lparr>reqUrl = ''http://a/x'', reqMethod = ''GET''\<rparr>, None)] =
     Inr [(\<lparr>reqUrl = ''http://a/x'', reqMethod = ''GET''\<rparr>, None)]"
  by (simp add: networkFilterEntries_def createNetworkFilter_def patternMatches_def
      truthyString_def)


text \<open>
  Claim C4, amended: for a request without a response the status criterion of a clause is
  not evaluated; the clause gives what the same clause without \<open>statuses\<close> gives (its
  types and pattern criteria decide), in \<open>include\<close> and in \<open>exclude\<close> alike.
\<close>

theorem status_criterion_skipped_without_response:
  "networkClause host url (request, None) flt =
   networkClause host url (request, None) (flt\<lparr>nStatuses := None\<rparr>)"
  by (simp split: option.splits)


text \<open>
  Claim C9 (empty filter lists). With an empty clause list the generated predicate returns
  the \<open>isInclude\<close> flag, for both filters. So \<open>include: []\<close> filters like an absent
  \<open>include\<close>, and with \<open>exclude: []\<close> no record is left: a query that returns has no
  console line, and the network tool reports that nothing matched.
\<close>

theorem empty_filter_lists:
  "createConsoleFilter host [] isInclude m = Inr isInclude \<and>
   createNetworkFilter host [] isInclude url e = Inr isInclude \<and>
   (pInclude cp = Some [] \<longrightarrow>
      consoleFilterMessages host cp messages =
      consoleFilterMessages host (cp\<lparr>pInclude := None\<rparr>) messages) \<and>
   (pInclude np = Some [] \<longrightarrow>
      networkFilterEntries host url np entries =
      networkFilterEntries host url (np\<lparr>pInclude := None\<rparr>) entries) \<and>
   (pExclude cp = Some [] \<longrightarrow>
      (\<forall>out. consoleFilterMessages host cp messages = Inr out \<longrightarrow> out = []) \<and>
      (\<forall>ls. consoleHandle host cp messages = Inr ls \<longrightarrow> ls = []) \<and>
      (pInclude cp = None \<or> pInclude cp = Some [] \<longrightarrow>
         consoleHandle host cp messages = Inr [])) \<and>
   (pExclude np = Some [] \<longrightarrow>
      (\<forall>out. networkFilterEntries host url np entries = Inr out \<longrightarrow> out = []) \<and>
      (\<forall>ls. requestsHandle host url np entries = Inr ls \<longrightarrow>
         ls = [''No network requests found matching the specified filters'']) \<and>
      (pInclude np = None \<or> pInclude np = Some [] \<longrightarrow>
         requestsHandle host url np entries =
           Inr [''No network requests found matching the specified filters'']))"
proof -
  have c: "createConsoleFilter host [] b = (\<lambda>m. Inr b)" for b
    by (simp add: createConsoleFilter_def fun_eq_iff)
  have n: "createNetworkFilter host [] b url = (\<lambda>e. Inr b)" for b
    by (simp add: createNetworkFilter_def fun_eq_iff)
  have lim: "stringArrayApplyLimits []
      \<lparr>maxTotalLength = MAX_TOTAL_TEXT_LENGTH, countFirst = f, countLast = l\<rparr> = []" for f l
    by (rule stringArrayApplyLimits_Nil) (simp add: MAX_TOTAL_TEXT_LENGTH_def)
  show ?thesis
    by (auto simp: c n lim consoleFilterMessages_def networkFilterEntries_def
        consoleHandle_def requestsHandle_def filterE_all_False filterE_all_True
        split: sum.splits option.splits)
qed

theorem empty_filter_lists_witness:
  "consoleHandle \<lparr>regExp = (\<lambda>p. None), urlHostname = (\<lambda>u. None), toUpperCase = (\<lambda>s. s)\<rparr>
     \<lparr>pInclude = Some [], pExclude = Some [], pFirst = None, pLast = None\<rparr>
     [\<lparr>msgType = ''log'', msgText = ''hi'', msgToString = ''[LOG] hi''\<rparr>] = Inr [] \<and>
   requestsHandle \<lparr>regExp = (\<lambda>p. None), urlHostname = (\<lambda>u. None), toUpperCase = (\<lambda>s. s)\<rparr>
     ''http://a/''
     \<lparr>pInclude = Some [], pExclude = Some [], pFirst = None, pLast = None\<rparr>
     [(\<lparr>reqUrl = ''http://a/x'', reqMethod = ''GET''\<rparr>, None)] =
     Inr [''No network requests found matching the specified filters'']"
  (is "consoleHandle ?H ?cp ?ms = Inr [] \<and> requestsHandle ?H ?url ?np ?es = Inr ?none")
proof -
  have c: "pExclude ?cp = Some []" "pInclude ?cp = None \<or> pInclude ?cp = Some []"
    by simp_all
  have n: "pExclude ?np = Some []" "pInclude ?np = None \<or> pInclude ?np = Some []"
    by simp_all
  from empty_filter_lists [of ?H True "hd ?ms" ?url "hd ?es" ?cp ?ms ?np ?es] c n
  show ?thesis by blast
qed


text \<open>
  Claim C10 (\<open>getConsoleMessageType\<close>). The severity is determined by the raw tag alone:
  \<open>error\<close> gives \<open>error\<close>, \<open>warning\<close> gives \<open>warning\<close>, \<open>log\<close> and \<open>info\<close> give
  \<open>info\<close>, and every other tag gives \<open>verbose\<close>.
\<close>

theorem getConsoleMessageType_cases:
  "(msgType m = ''error'' \<longrightarrow> getConsoleMessageType m = error) \<and>
   (msgType m = ''warning'' \<longrightarrow> getConsoleMessageType m = warning) \<and>
   (msgType m = ''log'' \<or> msgType m = ''info'' \<longrightarrow> getConsoleMessageType m = info) \<and>
   (msgType m \<notin> {''error'', ''warning'', ''log'', ''info''} \<longrightarrow>
      getConsoleMessageType m = verbose) \<and>
   (msgType m = msgType m' \<longrightarrow> getConsoleMessageType m = getConsoleMessageType m')"
  by (simp add: getConsoleMessageType_def)


theorem getConsoleMessageType_cases_witness:
  "getConsoleMessageType \<lparr>msgType = ''error'', msgText = ''a'', msgToString = ''b''\<rparr> = error \<and>
   getConsoleMessageType \<lparr>msgType = ''warning'', msgText = ''a'', msgToString = ''b''\<rparr> = warning \<and>
   getConsoleMessageType \<lparr>msgType = ''log'', msgText = ''a'', msgToString = ''b''\<rparr> = info \<and>
   getConsoleMessageType \<lparr>msgType = ''info'', msgText = ''a'', msgToString = ''b''\<rparr> = info \<and>
   getConsoleMessageType \<lparr>msgType = ''debug'', msgText = ''a'', msgToString = ''b''\<rparr> = verbose \<and>
   getConsoleMessageType \<lparr>msgType = ''debug'', msgText = ''a'', msgToString = ''b''\<rparr> =
   getConsoleMessageType \<lparr>msgType = ''debug'', msgText = ''c'', msgToString = ''d''\<rparr>"
  using
    getConsoleMessageType_cases [of "\<lparr>msgType = ''error'', msgText = ''a'', msgToString = ''b''\<rparr>"]
    getConsoleMessageType_cases [of "\<lparr>msgType = ''warning'', msgText = ''a'', msgToString = ''b''\<rparr>"]
    getConsoleMessageType_cases [of "\<lparr>msgType = ''log'', msgText = ''a'', msgToString = ''b''\<rparr>"]
    getConsoleMessageType_cases [of "\<lparr>msgType = ''info'', msgText = ''a'', msgToString = ''b''\<rparr>"]
    getConsoleMessageType_cases [of "\<lparr>msgType = ''debug'', msgText = ''a'', msgToString = ''b''\<rparr>"
      "\<lparr>msgType = ''debug'', msgText = ''c'', msgToString = ''d''\<rparr>"]
    getConsoleMessageType_cases [of "\<lparr>msgType = ''debug'', msgText = ''c'', msgToString = ''d''\<rparr>"]
  by simp

lemma some_throws:
  "\<forall>y \<in> set pre. p y = Inr False \<Longrightarrow> p x = Inl e \<Longrightarrow> some p (pre @ x # post) = Inl e"
  by (induction pre) auto

lemma filterE_throws:
  "\<forall>y \<in> set pre. \<exists>v. p y = Inr v \<Longrightarrow> p x = Inl e \<Longrightarrow> filterE p (pre @ x # post) = Inl e"
  by (induction pre) auto

text \<open>
  Claim C6 (malformed pattern) as stated fails: a pattern is compiled only when a record is
  tested against it. With no record, or when the clause's \<open>types\<close> already reject the
  record, a query whose clause carries the malformed pattern \<open>(\<close> returns normally.
\<close>

theorem malformed_pattern_not_always_fatal:
  "regExp \<lparr>regExp = (\<lambda>p. if p = ''('' then None else Some (\<lambda>s. True)), urlHostname = (\<lambda>u. None), toUpperCase = (\<lambda>s. s)\<rparr> ''('' = None \<and>
   consoleHandle \<lparr>regExp = (\<lambda>p. if p = ''('' then None else Some (\<lambda>s. True)), urlHostname = (\<lambda>u. None), toUpperCase = (\<lambda>s. s)\<rparr>
     \<lparr>pInclude = Some [\<lparr>cTypes = None, cPattern = Some ''(''\<rparr>], pExclude = None,
      pFirst = None, pLast = None\<rparr> [] = Inr [] \<and>
   consoleHandle \<lparr>regExp = (\<lambda>p. if p = ''('' then None else Some (\<lambda>s. True)), urlHostname = (\<lambda>u. None), toUpperCase = (\<lambda>s. s)\<rparr>
     \<lparr>pInclude = Some [\<lparr>cTypes = Some [error], cPattern = Some ''(''\<rparr>], pExclude = None,
      pFirst = None, pLast = None\<rparr>
     [\<lparr>msgType = ''log'', msgText = ''hi'', msgToString = ''[LOG] hi''\<rparr>] = Inr [] \<and>
   requestsHandle \<lparr>regExp = (\<lambda>p. if p = ''('' then None else Some (\<lambda>s. True)), urlHostname = (\<lambda>u. None), toUpperCase = (\<lambda>s. s)\<rparr> ''http://a/''
     \<lparr>pInclude = None,
      pExclude = Some [\<lparr>nStatuses = None, nTypes = None, nPattern = Some ''(''\<rparr>],
      pFirst = None, pLast = None\<rparr> [] =
     Inr [''No network requests found matching the specified filters'']"
proof -
  have lim: "stringArrayApplyLimits []
      \<lparr>maxTotalLength = MAX_TOTAL_TEXT_LENGTH, countFirst = None, countLast = None\<rparr> = []"
    by (rule stringArrayApplyLimits_Nil) (simp add: MAX_TOTAL_TEXT_LENGTH_def)
  show ?thesis
    by (simp add: lim consoleHandle_def requestsHandle_def consoleFilterMessages_def
        networkFilterEntries_def createConsoleFilter_def consoleClause_def
        getConsoleMessageType_def)
qed

text \<open>
  Claim C6, amended. Let a clause carry a malformed, non-empty pattern. If some record
  reaches that clause's pattern test (it is in the list the stage filters, the filter did
  not throw on the records before it, the clauses before this one do not match it, and it
  passes the clause's types and status criteria), in \<open>include\<close> or in \<open>exclude\<close>, then
  the handler ends with the \<open>SyntaxError\<close> of \<open>new RegExp\<close>, which carries the pattern,
  and no line is returned.
\<close>

theorem malformed_pattern_fails_when_tested:
  assumes "regExp host p = None" and "p \<noteq> []"
  shows
    "(cPattern cf = Some p \<longrightarrow>
      (\<forall>ts. cTypes cf = Some ts \<longrightarrow> ts = [] \<or> getConsoleMessageType m \<in> set ts) \<longrightarrow>
      (\<forall>c \<in> set cpre. consoleClause host m c = Inr False) \<longrightarrow>
      (\<forall>m' \<in> set mpre. \<exists>v. createConsoleFilter host (cpre @ cf # cpost) isInclude m' = Inr v) \<longrightarrow>
      (if isInclude
       then pInclude cp = Some (cpre @ cf # cpost) \<and> messages = mpre @ m # mpost
       else pExclude cp = Some (cpre @ cf # cpost) \<and>
            (case pInclude cp of
               None \<Rightarrow> Inr messages
             | Some inc \<Rightarrow> filterE (createConsoleFilter host inc True) messages) =
            Inr (mpre @ m # mpost)) \<longrightarrow>
      consoleHandle host cp messages = Inl (SyntaxError p)) \<and>
     (nPattern nf = Some p \<longrightarrow>
      (\<forall>sts res. nStatuses nf = Some sts \<longrightarrow> snd e = Some res \<longrightarrow>
         sts = [] \<or> (\<exists>(mn, mx) \<in> set sts. mn \<le> resStatus res \<and> resStatus res \<le> mx)) \<longrightarrow>
      (\<forall>ts. nTypes nf = Some ts \<longrightarrow>
         ts = [] \<or> getNetworkRequestType host (fst e) url \<in> set ts) \<longrightarrow>
      (\<forall>c \<in> set npre. networkClause host url e c = Inr False) \<longrightarrow>
      (\<forall>e' \<in> set epre. \<exists>v. createNetworkFilter host (npre @ nf # npost) isInclude url e' = Inr v) \<longrightarrow>
      (if isInclude
       then pInclude np = Some (npre @ nf # npost) \<and> entries = epre @ e # epost
       else pExclude np = Some (npre @ nf # npost) \<and>
            (case pInclude np of
               None \<Rightarrow> Inr entries
             | Some inc \<Rightarrow> filterE (createNetworkFilter host inc True url) entries) =
            Inr (epre @ e # epost)) \<longrightarrow>
      requestsHandle host url np entries = Inl (SyntaxError p))"
proof (intro conjI impI)
  have pm: "patternMatches host (Some p) s = Inl (SyntaxError p)" for s
    using assms by (simp add: patternMatches_def truthyString_def)
  {
    assume h: "cPattern cf = Some p"
      "\<forall>ts. cTypes cf = Some ts \<longrightarrow> ts = [] \<or> getConsoleMessageType m \<in> set ts"
      "\<forall>c \<in> set cpre. consoleClause host m c = Inr False"
      "\<forall>m' \<in> set mpre. \<exists>v. createConsoleFilter host (cpre @ cf # cpost) isInclude m' = Inr v"
      "if isInclude
       then pInclude cp = Some (cpre @ cf # cpost) \<and> messages = mpre @ m # mpost
       else pExclude cp = Some (cpre @ cf # cpost) \<and>
            (case pInclude cp of
               None \<Rightarrow> Inr messages
             | Some inc \<Rightarrow> filterE (createConsoleFilter host inc True) messages) =
            Inr (mpre @ m # mpost)"
    have "consoleClause host m cf = Inl (SyntaxError p)"
      using h(1,2) by (auto simp: consoleClause_def pm split: option.splits)
    with h(3) have "some (consoleClause host m) (cpre @ cf # cpost) = Inl (SyntaxError p)"
      by (rule some_throws)
    then have "createConsoleFilter host (cpre @ cf # cpost) isInclude m = Inl (SyntaxError p)"
      by (simp add: createConsoleFilter_def)
    with h(4) have "filterE (createConsoleFilter host (cpre @ cf # cpost) isInclude)
        (mpre @ m # mpost) = Inl (SyntaxError p)"
      by (rule filterE_throws)
    with h(5) have "consoleFilterMessages host cp messages = Inl (SyntaxError p)"
      by (cases isInclude) (auto simp: consoleFilterMessages_def split: option.splits)
    then show "consoleHandle host cp messages = Inl (SyntaxError p)"
      by (simp add: consoleHandle_def)
  }
  {
    assume h: "nPattern nf = Some p"
      "\<forall>sts res. nStatuses nf = Some sts \<longrightarrow> snd e = Some res \<longrightarrow>
         sts = [] \<or> (\<exists>(mn, mx) \<in> set sts. mn \<le> resStatus res \<and> resStatus res \<le> mx)"
      "\<forall>ts. nTypes nf = Some ts \<longrightarrow>
         ts = [] \<or> getNetworkRequestType host (fst e) url \<in> set ts"
      "\<forall>c \<in> set npre. networkClause host url e c = Inr False"
      "\<forall>e' \<in> set epre. \<exists>v. createNetworkFilter host (npre @ nf # npost) isInclude url e' = Inr v"
      "if isInclude
       then pInclude np = Some (npre @ nf # npost) \<and> entries = epre @ e # epost
       else pExclude np = Some (npre @ nf # npost) \<and>
            (case pInclude np of
               None \<Rightarrow> Inr entries
             | Some inc \<Rightarrow> filterE (createNetworkFilter host inc True url) entries) =
            Inr (epre @ e # epost)"
    obtain request response where e: "e = (request, response)" by (cases e)
    have "networkClause host url e nf = Inl (SyntaxError p)"
      using h(1,2,3) unfolding e
      by (auto simp: pm list_ex_iff split: option.splits)
    with h(4) have "some (networkClause host url e) (npre @ nf # npost) = Inl (SyntaxError p)"
      by (rule some_throws)
    then have "createNetworkFilter host (npre @ nf # npost) isInclude url e = Inl (SyntaxError p)"
      by (simp add: createNetworkFilter_def)
    with h(5) have "filterE (createNetworkFilter host (npre @ nf # npost) isInclude url)
        (epre @ e # epost) = Inl (SyntaxError p)"
      by (rule filterE_throws)
    with h(6) have "networkFilterEntries host url np entries = Inl (SyntaxError p)"
      by (cases isInclude) (auto simp: networkFilterEntries_def split: option.splits)
    then show "requestsHandle host url np entries = Inl (SyntaxError p)"
      by (simp add: requestsHandle_def)
  }
qed

theorem malformed_pattern_fails_when_tested_witness:
  "regExp \<lparr>regExp = (\<lambda>p. if p = ''('' then None else Some (\<lambda>s. True)), urlHostname = (\<lambda>u. None), toUpperCase = (\<lambda>s. s)\<rparr> ''('' = None \<and>
   consoleHandle \<lparr>regExp = (\<lambda>p. if p = ''('' then None else Some (\<lambda>s. True)), urlHostname = (\<lambda>u. None), toUpperCase = (\<lambda>s. s)\<rparr>
     \<lparr>pInclude = Some [\<lparr>cTypes = None, cPattern = Some ''(''\<rparr>], pExclude = None,
      pFirst = None, pLast = None\<rparr>
     [\<lparr>msgType = ''log'', msgText = ''hi'', msgToString = ''[LOG] hi''\<rparr>] =
     Inl (SyntaxError ''('') \<and>
   requestsHandle \<lparr>regExp = (\<lambda>p. if p = ''('' then None else Some (\<lambda>s. True)), urlHostname = (\<lambda>u. None), toUpperCase = (\<lambda>s. s)\<rparr> ''http://a/''
     \<lparr>pInclude = Some [\<lparr>nStatuses = None, nTypes = None, nPattern = Some ''(''\<rparr>],
      pExclude = None, pFirst = None, pLast = None\<rparr>
     [(\<lparr>reqUrl = ''http://a/x'', reqMethod = ''GET''\<rparr>, None)] =
     Inl (SyntaxError ''('') \<and>
   consoleHandle \<lparr>regExp = (\<lambda>p. if p = ''('' then None else Some (\<lambda>s. True)), urlHostname = (\<lambda>u. None), toUpperCase = (\<lambda>s. s)\<rparr>
     \<lparr>pInclude = None, pExclude = Some [\<lparr>cTypes = None, cPattern = Some ''(''\<rparr>],
      pFirst = None, pLast = None\<rparr>
     [\<lparr>msgType = ''log'', msgText = ''hi'', msgToString = ''[LOG] hi''\<rparr>] =
     Inl (SyntaxError ''('')"
  (is "regExp ?H ?p = None \<and> consoleHandle ?H ?cp [?m] = ?err \<and>
       requestsHandle ?H ?url ?np [?e] = ?err \<and> consoleHandle ?H ?xp [?m] = ?err")
proof -
  let ?cf = "\<lparr>cTypes = None, cPattern = Some ''(''\<rparr>"
  let ?nf = "\<lparr>nStatuses = None, nTypes = None, nPattern = Some ''(''\<rparr>"
  have bad: "regExp ?H ?p = None" "?p \<noteq> []" by simp_all
  note T = malformed_pattern_fails_when_tested
    [OF bad, of ?cf ?m "[]" "[]" "[]" True ?cp "[?m]" "[]" ?nf ?e ?url "[]" "[]" "[]" ?np "[?e]" "[]"]
  have "consoleHandle ?H ?cp [?m] = ?err" using T by simp
  moreover have "requestsHandle ?H ?url ?np [?e] = ?err" using T by simp
  moreover have "consoleHandle ?H ?xp [?m] = ?err"
    using malformed_pattern_fails_when_tested
      [OF bad, of ?cf ?m "[]" "[]" "[]" False ?xp "[?m]" "[]" ?nf ?e ?url "[]" "[]" "[]" ?np "[?e]" "[]"]
    by simp
  ultimately show ?thesis using bad(1) by blast
qed

section \<open>Properties of \<open>waitForCompletion\<close>\<close>

lemma UNIV_listener: "UNIV = {RequestListener, RequestFinishedListener, FrameNavigateListener}"
  using listener.exhaust by auto

lemma all_listeners:
  "(\<forall>l. P l) = (P RequestListener \<and> P RequestFinishedListener \<and> P FrameNavigateListener)"
  by (metis listener.exhaust)

lemma inv_initial: "cleanupInv initial"
  using listener.exhaust
  by (auto simp: cleanupInv_def initial_def released_def timerEnded_def exited_def)

lemma inv_dispose_fields [simp]:
  "attached (dispose s) = {}" "\<not> timerPending (dispose s)"
  "phase (dispose s) = phase s"
  by (auto simp: dispose_def off_def clearTimeout_def intro: listener.exhaust)

lemma released_dispose:
  "released (dispose s) l = released s l + (if l \<in> attached s then 1 else 0)"
  by (cases l) (auto simp: dispose_def off_def clearTimeout_def released_def)

lemma idle_dispose:
  "count_list (trace (dispose s)) (Off l False) =
   count_list (trace s) (Off l False) + (if l \<in> attached s then 0 else 1)"
  by (cases l) (auto simp: dispose_def off_def clearTimeout_def)

lemma timerEnded_dispose:
  "timerEnded (dispose s) = timerEnded s + (if timerPending s then 1 else 0)"
  by (auto simp: dispose_def off_def clearTimeout_def timerEnded_def)

lemma inv_dispose:
  "cleanupInv s \<Longrightarrow> \<not> exited s \<Longrightarrow> exited (s\<lparr>phase := p\<rparr>) \<Longrightarrow>
   cleanupInv ((dispose s)\<lparr>phase := p\<rparr>)"
  using released_dispose [of s] timerEnded_dispose [of s] idle_dispose [of s]
  by (auto simp: cleanupInv_def released_def timerEnded_def exited_def)

lemma inv_update [simp]:
  "cleanupInv (s\<lparr>requests := q\<rparr>) = cleanupInv s"
  "cleanupInv (s\<lparr>barrierResolved := b\<rparr>) = cleanupInv s"
  "cleanupInv (s\<lparr>loadPending := b\<rparr>) = cleanupInv s"
  "cleanupInv (s\<lparr>frameNavigated := b\<rparr>) = cleanupInv s"
  by (simp_all add: cleanupInv_def released_def timerEnded_def exited_def)

lemma dispose_update [simp]:
  "dispose (s\<lparr>frameNavigated := b\<rparr>) = (dispose s)\<lparr>frameNavigated := b\<rparr>"
  by (simp add: dispose_def off_def clearTimeout_def)

lemma inv_clearTimeout_idle: "cleanupInv s \<Longrightarrow> \<not> timerPending s \<Longrightarrow> cleanupInv (clearTimeout s)"
  by (simp add: cleanupInv_def released_def timerEnded_def exited_def clearTimeout_def)

lemma inv_dispose': "cleanupInv s \<Longrightarrow> timerPending s \<Longrightarrow> cleanupInv (dispose s)"
  using released_dispose [of s] timerEnded_dispose [of s] idle_dispose [of s]
  by (auto simp: cleanupInv_def exited_def)

lemma clearTimeout_update [simp]:
  "clearTimeout (s\<lparr>frameNavigated := b\<rparr>) = (clearTimeout s)\<lparr>frameNavigated := b\<rparr>"
  by (simp add: clearTimeout_def)

lemma inv_step: "cleanupInv s \<Longrightarrow> cleanupInv (step s ev)"
proof (cases ev)
  case (RequestEvent r)
  assume "cleanupInv s"
  then show ?thesis using RequestEvent by (simp add: requestListener_def)
next
  case (RequestFinishedEvent r)
  assume "cleanupInv s"
  then show ?thesis using RequestFinishedEvent
    by (simp add: requestFinishedListener_def waitCallback_def Let_def)
next
  case (FrameNavigatedEvent h)
  assume i: "cleanupInv s"
  have "cleanupInv (clearTimeout (dispose s))" if "FrameNavigateListener \<in> attached s"
  proof -
    from i that have "timerPending s" by (auto simp: cleanupInv_def split: if_splits)
    with i show ?thesis by (intro inv_clearTimeout_idle inv_dispose') simp_all
  qed
  then show ?thesis using FrameNavigatedEvent i
    by (simp add: frameNavigateListener_def)
next
  case TimerElapsed
  assume i: "cleanupInv s"
  show ?thesis
  proof (cases "timerPending s")
    case False
    then show ?thesis using i TimerElapsed by simp
  next
    case True
    with i have a: "attached s = UNIV" by (simp add: cleanupInv_def)
    have "cleanupInv (onTimeout (s\<lparr>timerPending := False, trace := trace s @ [TimerFired]\<rparr>))"
      using i True a listener.exhaust
      by (auto simp: cleanupInv_def onTimeout_def waitCallback_def dispose_def off_def
          clearTimeout_def released_def timerEnded_def exited_def all_listeners)
    then show ?thesis using True TimerElapsed by simp
  qed
next
  case LoadStateReached
  assume "cleanupInv s"
  then show ?thesis using LoadStateReached by (simp add: waitCallback_def)
next
  case (CallbackResolved v)
  assume i: "cleanupInv s"
  show ?thesis
  proof (cases "phase s = AwaitingCallback")
    case True
    then have "\<not> exited s" by (simp add: exited_def)
    with i have "cleanupInv (s\<lparr>phase := AwaitingBarrier v\<rparr>)"
      by (simp add: cleanupInv_def released_def timerEnded_def exited_def)
    moreover have "cleanupInv ((waitCallback s)\<lparr>phase := AwaitingBarrier v\<rparr>) =
        cleanupInv (s\<lparr>phase := AwaitingBarrier v\<rparr>)"
      by (simp add: waitCallback_def cleanupInv_def released_def timerEnded_def exited_def)
    ultimately show ?thesis using True CallbackResolved by simp
  next
    case False
    then show ?thesis using i CallbackResolved by (simp split: phase.splits)
  qed
next
  case (CallbackRejected e)
  assume "cleanupInv s"
  then show ?thesis using CallbackRejected
    by (auto simp: exited_def intro!: inv_dispose split: phase.splits)
next
  case BarrierContinues
  assume i: "cleanupInv s"
  show ?thesis
  proof (cases "\<exists>v. phase s = AwaitingBarrier v \<and> barrierResolved s")
    case True
    then obtain v where v: "phase s = AwaitingBarrier v" "barrierResolved s" by blast
    then have "\<not> exited s" by (simp add: exited_def)
    with i have "cleanupInv (s\<lparr>phase := AwaitingQuiet v\<rparr>)"
      by (simp add: cleanupInv_def released_def timerEnded_def exited_def)
    then show ?thesis using v BarrierContinues by simp
  next
    case False
    then have "step s BarrierContinues = s" by (auto split: phase.splits)
    then show ?thesis using i BarrierContinues by simp
  qed
next
  case QuietElapsed
  assume "cleanupInv s"
  then show ?thesis using QuietElapsed
    by (auto simp: exited_def intro!: inv_dispose split: phase.splits)
next
  case (QuietRejected e)
  assume "cleanupInv s"
  then show ?thesis using QuietRejected
    by (auto simp: exited_def intro!: inv_dispose split: phase.splits)
qed

lemma inv_run: "cleanupInv s \<Longrightarrow> cleanupInv (foldl step s events)"
  by (induction events arbitrary: s) (simp_all add: inv_step)

lemma thrown_stays: "phase s = Thrown e \<Longrightarrow> phase (step s ev) = Thrown e"
  by (cases ev)
     (simp_all add: requestListener_def requestFinishedListener_def frameNavigateListener_def
        onTimeout_def waitCallback_def clearTimeout_def Let_def)

lemma thrown_run: "phase s = Thrown e \<Longrightarrow> phase (foldl step s events) = Thrown e"
  by (induction events arbitrary: s) (simp_all add: thrown_stays)

text \<open>
  Claim C8 (cleanup on every exit). Whatever the events and their order, when
  \<open>waitForCompletion\<close> has returned or thrown, no listener of the call is attached and the
  timer is not pending; each of the three listeners was removed by exactly one call of
  \<open>page.off\<close> (\<open>dispose\<close> may run a second time in \<open>finally\<close>, after the timeout or a
  top-level navigation, and then finds nothing to remove: at most two calls per listener);
  the timer ended exactly once, by firing or by \<open>clearTimeout\<close>. And when the action
  rejects with \<open>e\<close> while it is awaited, the call is cleaned up and throws \<open>e\<close>, whatever
  happens afterwards.
\<close>

theorem cleanup_on_every_exit:
  "(exited (waitForCompletion events) \<longrightarrow>
      attached (waitForCompletion events) = {} \<and>
      \<not> timerPending (waitForCompletion events) \<and>
      (\<forall>l. released (waitForCompletion events) l = 1 \<and>
           offCalls (waitForCompletion events) l \<le> 2) \<and>
      timerEnded (waitForCompletion events) = 1) \<and>
   (phase (waitForCompletion pre) = AwaitingCallback \<longrightarrow>
      phase (waitForCompletion (pre @ CallbackRejected e # post)) = Thrown e \<and>
      exited (waitForCompletion (pre @ CallbackRejected e # post)))"
proof -
  have i: "cleanupInv (waitForCompletion evs)" for evs :: "('a, 'b) event list"
    unfolding waitForCompletion_def by (rule inv_run [OF inv_initial])
  have a: "exited (waitForCompletion events) \<longrightarrow>
      attached (waitForCompletion events) = {} \<and>
      \<not> timerPending (waitForCompletion events) \<and>
      (\<forall>l. released (waitForCompletion events) l = 1 \<and>
           offCalls (waitForCompletion events) l \<le> 2) \<and>
      timerEnded (waitForCompletion events) = 1"
  proof
    assume x: "exited (waitForCompletion events)"
    let ?s = "waitForCompletion events"
    from i [of events] x have a: "attached ?s = {}" "\<not> timerPending ?s"
      "\<forall>l. released ?s l = (if l \<in> attached ?s then 0 else 1)"
      "\<forall>l. count_list (trace ?s) (Off l False) \<le> 1"
      "timerEnded ?s = (if timerPending ?s then 0 else 1)"
      by (simp_all add: cleanupInv_def)
    have "released ?s l = 1 \<and> offCalls ?s l \<le> 2" for l
    proof -
      have r: "released ?s l = 1" using a(1,3) by simp
      moreover have "count_list (trace ?s) (Off l False) \<le> 1" using a(4) by simp
      ultimately show ?thesis by (simp add: offCalls_def released_def)
    qed
    with a show "attached ?s = {} \<and> \<not> timerPending ?s \<and>
      (\<forall>l. released ?s l = 1 \<and> offCalls ?s l \<le> 2) \<and> timerEnded ?s = 1"
      by simp
  qed
  have b: "phase (waitForCompletion (pre @ CallbackRejected e # post)) = Thrown e \<and>
      exited (waitForCompletion (pre @ CallbackRejected e # post))"
    if "phase (waitForCompletion pre) = AwaitingCallback"
  proof -
    have "phase (step (foldl step initial pre) (CallbackRejected e)) = Thrown e"
      using that by (simp add: waitForCompletion_def)
    then have "phase (waitForCompletion (pre @ CallbackRejected e # post)) = Thrown e"
      unfolding waitForCompletion_def by (simp add: thrown_run)
    then show ?thesis by (simp add: exited_def)
  qed
  from a b show ?thesis by blast
qed


theorem cleanup_on_every_exit_witness:
  "exited (waitForCompletion
     [RequestEvent 1, CallbackResolved (0::nat), TimerElapsed, BarrierContinues,
      QuietElapsed :: (nat, nat) event]) \<and>
   attached (waitForCompletion
     [RequestEvent 1, CallbackResolved (0::nat), TimerElapsed, BarrierContinues,
      QuietElapsed :: (nat, nat) event]) = {} \<and>
   \<not> timerPending (waitForCompletion
     [RequestEvent 1, CallbackResolved (0::nat), TimerElapsed, BarrierContinues,
      QuietElapsed :: (nat, nat) event]) \<and>
   (\<forall>l. released (waitForCompletion
          [RequestEvent 1, CallbackResolved (0::nat), TimerElapsed, BarrierContinues,
           QuietElapsed :: (nat, nat) event]) l = 1 \<and>
        offCalls (waitForCompletion
          [RequestEvent 1, CallbackResolved (0::nat), TimerElapsed, BarrierContinues,
           QuietElapsed :: (nat, nat) event]) l \<le> 2) \<and>
   timerEnded (waitForCompletion
     [RequestEvent 1, CallbackResolved (0::nat), TimerElapsed, BarrierContinues,
      QuietElapsed :: (nat, nat) event]) = 1 \<and>
   trace (waitForCompletion
     [RequestEvent 1, CallbackResolved (0::nat), TimerElapsed, BarrierContinues,
      QuietElapsed :: (nat, nat) event]) =
     [TimerFired,
      Off RequestListener True, Off RequestFinishedListener True,
      Off FrameNavigateListener True, ClearTimeout False,
      Off RequestListener False, Off RequestFinishedListener False,
      Off FrameNavigateListener False, ClearTimeout False] \<and>
   phase (waitForCompletion [RequestEvent 1 :: (nat, nat) event]) = AwaitingCallback \<and>
   phase (waitForCompletion
     ([RequestEvent 1] @ CallbackRejected (7::nat) # [RequestFinishedEvent 1 :: (nat, nat) event])) =
     Thrown 7 \<and>
   exited (waitForCompletion
     ([RequestEvent 1] @ CallbackRejected (7::nat) # [RequestFinishedEvent 1 :: (nat, nat) event]))"
  (is "exited ?s \<and> ?A \<and> ?B \<and> ?C \<and> ?D \<and> ?T \<and> ?P \<and> ?Q")
proof -
  note ev = waitForCompletion_def initial_def exited_def onTimeout_def dispose_def off_def
    clearTimeout_def waitCallback_def requestListener_def requestFinishedListener_def
  have x: "exited ?s" by (simp add: ev)
  have t: ?T by (simp add: ev)
  have p: ?P by (simp add: ev)
  from cleanup_on_every_exit
    [of "[RequestEvent 1, CallbackResolved (0::nat), TimerElapsed, BarrierContinues,
          QuietElapsed :: (nat, nat) event]"
        "[RequestEvent 1 :: (nat, nat) event]" 7 "[RequestFinishedEvent 1]"] x t p
  show ?thesis by blast
qed

end
